theory Spec2Isabelle
  imports Main "HOL-Library.Word"
begin

section \<open>Machine types, pointers and the heap\<close>

text \<open>
  The archetype storage of \<^verbatim>\<open>ecs/archetype.go\<close> and the reflection storage of
  \<^verbatim>\<open>ecs/storage.go\<close> work on raw memory through \<^verbatim>\<open>unsafe.Pointer\<close>. The embedding
  keeps the machine types of the source: \<^verbatim>\<open>uint32\<close> is a 32-bit word, \<^verbatim>\<open>uintptr\<close> a
  64-bit word, and Go's \<^verbatim>\<open>int\<close> an integer.

  The heap is a list of blocks, one per allocation, each a list of bytes. An allocation
  appends a block, so the block it returns is always fresh. A pointer is either a raw
  address that lies in no allocation (\<open>Raw 0\<close> is Go's \<^verbatim>\<open>nil\<close>) or a byte offset into
  a block. Go's runtime never hands out \<^verbatim>\<open>nil\<close> from \<^verbatim>\<open>reflect.New\<close>, also for
  a type of size zero.
\<close>

type_synonym byte = "8 word"
type_synonym u32 = "32 word"
type_synonym uintptr = "64 word"
type_synonym ID = "32 word"

type_synonym heap = "byte list list"

datatype pointer = Raw nat | Ptr nat nat

definition nil :: pointer where
  "nil = Raw 0"

text \<open>Every abort of the source is a value: a panic with its message, or an access
  through an unsafe pointer that leaves the allocation it points into.\<close>

datatype error = Panic string | OutOfBounds

definition MaxInt32 :: nat where
  "MaxInt32 = 2147483647"

text \<open>\<^verbatim>\<open>unsafe.Add(ptr, len)\<close>: address arithmetic modulo \<open>2^64\<close>.\<close>

fun unsafe_Add :: "pointer \<Rightarrow> uintptr \<Rightarrow> pointer" where
  "unsafe_Add (Raw a) n = Raw ((a + unat n) mod 2 ^ 64)"
| "unsafe_Add (Ptr b off) n = Ptr b ((off + unat n) mod 2 ^ 64)"

definition load :: "heap \<Rightarrow> pointer \<Rightarrow> nat \<Rightarrow> byte list option" where
  "load h p n =
     (case p of
        Raw a \<Rightarrow> None
      | Ptr b off \<Rightarrow>
          if b < length h \<and> off + n \<le> length (h ! b)
          then Some (take n (drop off (h ! b))) else None)"

definition store :: "heap \<Rightarrow> pointer \<Rightarrow> byte list \<Rightarrow> heap option" where
  "store h p bs =
     (case p of
        Raw a \<Rightarrow> None
      | Ptr b off \<Rightarrow>
          if b < length h \<and> off + length bs \<le> length (h ! b)
          then Some (h[b := take off (h ! b) @ bs @ drop (off + length bs) (h ! b)])
          else None)"

text \<open>The builtin \<^verbatim>\<open>copy\<close> on two byte slices of the same length \<open>n\<close>: a memmove.
  Nothing is touched when \<open>n = 0\<close>.\<close>

definition memmove :: "heap \<Rightarrow> pointer \<Rightarrow> pointer \<Rightarrow> nat \<Rightarrow> error + heap" where
  "memmove h dst src n =
     (if n = 0 then Inr h
      else case load h src n of
             None \<Rightarrow> Inl OutOfBounds
           | Some bs \<Rightarrow>
               (case store h dst bs of
                  None \<Rightarrow> Inl OutOfBounds
                | Some h' \<Rightarrow> Inr h'))"

text \<open>
  \<^verbatim>\<open>
  func (a *archetype) copy(src, dst unsafe.Pointer, itemSize uintptr) {
      dstSlice := (*[math.MaxInt32]byte)(dst)[:itemSize:itemSize]
      srcSlice := (*[math.MaxInt32]byte)(src)[:itemSize:itemSize]
      copy(dstSlice, srcSlice)
  }
  \<close>
  Slicing through a \<^verbatim>\<open>nil\<close> array pointer and slicing beyond the array length
  \<^verbatim>\<open>math.MaxInt32\<close> panic. \<^verbatim>\<open>Storage.Remove\<close>, \<^verbatim>\<open>Storage.set\<close> and
  \<^verbatim>\<open>Storage.setPointer\<close> inline the same three statements.
\<close>

definition copy :: "heap \<Rightarrow> pointer \<Rightarrow> pointer \<Rightarrow> uintptr \<Rightarrow> error + heap" where
  "copy h src dst itemSize =
     (if dst = nil \<or> src = nil
      then Inl (Panic ''runtime error: invalid memory address or nil pointer dereference'')
      else if MaxInt32 < unat itemSize
      then Inl (Panic ''runtime error: slice bounds out of range'')
      else memmove h dst src (unat itemSize))"

subsection \<open>Reflection\<close>

text \<open>A \<^verbatim>\<open>reflect.Type\<close> is used through \<^verbatim>\<open>Size()\<close> (a \<^verbatim>\<open>uintptr\<close>) and \<^verbatim>\<open>Align()\<close>
  (an \<^verbatim>\<open>int\<close>) only. An array \<^verbatim>\<open>reflect.Value\<close> is its element type, its length and
  the address of its first element.\<close>

record rtype =
  Size :: uintptr
  Align :: int

record rvalue =
  elemType :: rtype
  count :: nat
  addr :: pointer

text \<open>The zero \<^verbatim>\<open>reflect.Value\<close>, as \<^verbatim>\<open>make([]reflect.Value, n)\<close> fills a slice.\<close>

definition zeroValue :: rvalue where
  "zeroValue = \<lparr>elemType = \<lparr>Size = 0, Align = 0\<rparr>, count = 0, addr = nil\<rparr>"

text \<open>\<^verbatim>\<open>reflect.New(reflect.ArrayOf(n, tp)).Elem()\<close>: a zeroed array of \<open>n\<close> elements in
  a fresh block. \<^verbatim>\<open>reflect.ArrayOf\<close> panics on a negative length and on an array whose
  size overflows \<^verbatim>\<open>uintptr\<close>.\<close>

definition reflect_New_ArrayOf :: "heap \<Rightarrow> int \<Rightarrow> rtype \<Rightarrow> error + heap \<times> rvalue" where
  "reflect_New_ArrayOf h n tp =
     (if n < 0 then Inl (Panic ''reflect: negative length passed to ArrayOf'')
      else if 0 < unat (Size tp) \<and> (2 ^ 64 - 1) div unat (Size tp) < nat n
      then Inl (Panic ''reflect.ArrayOf: array size would exceed virtual address space'')
      else Inr (h @ [replicate (nat n * unat (Size tp)) 0],
                \<lparr>elemType = tp, count = nat n, addr = Ptr (length h) 0\<rparr>))"

text \<open>\<^verbatim>\<open>reflect.Copy(dst, src)\<close> on two arrays of one element type copies as many
  elements as the shorter one has.\<close>

definition reflect_Copy :: "heap \<Rightarrow> rvalue \<Rightarrow> rvalue \<Rightarrow> error + heap" where
  "reflect_Copy h dst src =
     memmove h (addr dst) (addr src) (min (count dst) (count src) * unat (Size (elemType dst)))"

section \<open>The reflection storage (ecs/storage.go)\<close>

record Storage =
  buffer :: rvalue
  bufferAddress :: pointer
  typeOf :: rtype
  s_itemSize :: uintptr
  s_len :: u32
  s_cap :: u32
  s_capacityIncrement :: u32

text \<open>
  \<^verbatim>\<open>
  func NewReflectStorage(tp reflect.Type, increment int) Storage {
      size := tp.Size()
      buffer := reflect.New(reflect.ArrayOf(increment, tp)).Elem()
      return Storage{buffer: buffer, bufferAddress: buffer.Addr().UnsafePointer(),
          typeOf: tp, itemSize: size, len: 0,
          cap: uint32(increment), capacityIncrement: uint32(increment)}
  }
  \<close>
\<close>

definition NewReflectStorage :: "heap \<Rightarrow> rtype \<Rightarrow> int \<Rightarrow> error + heap \<times> Storage" where
  "NewReflectStorage h tp increment =
     (case reflect_New_ArrayOf h increment tp of
        Inl e \<Rightarrow> Inl e
      | Inr (h', buf) \<Rightarrow>
          Inr (h', \<lparr>buffer = buf, bufferAddress = addr buf, typeOf = tp,
                    s_itemSize = Size tp, s_len = 0,
                    s_cap = word_of_int increment,
                    s_capacityIncrement = word_of_int increment\<rparr>))"

text \<open>\<^verbatim>\<open>Storage.Get\<close>: \<^verbatim>\<open>unsafe.Add(s.bufferAddress, uintptr(index)*s.itemSize)\<close>.\<close>

definition Storage_Get :: "Storage \<Rightarrow> u32 \<Rightarrow> pointer" where
  "Storage_Get s index = unsafe_Add (bufferAddress s) (ucast index * s_itemSize s)"

text \<open>
  \<^verbatim>\<open>
  func (s *Storage) extend() {
      if s.cap < s.len+1 {
          old := s.buffer
          s.cap = s.cap + s.capacityIncrement
          s.buffer = reflect.New(reflect.ArrayOf(int(s.cap), s.typeOf)).Elem()
          s.bufferAddress = s.buffer.Addr().UnsafePointer()
          reflect.Copy(s.buffer, old)
      }
  }
  \<close>
\<close>

definition Storage_extend :: "heap \<Rightarrow> Storage \<Rightarrow> error + heap \<times> Storage" where
  "Storage_extend h s =
     (if s_cap s < s_len s + 1 then
        (let old = buffer s;
             c = s_cap s + s_capacityIncrement s
         in case reflect_New_ArrayOf h (uint c) (typeOf s) of
              Inl e \<Rightarrow> Inl e
            | Inr (h1, new) \<Rightarrow>
                (case reflect_Copy h1 new old of
                   Inl e \<Rightarrow> Inl e
                 | Inr h2 \<Rightarrow>
                     Inr (h2, s\<lparr>s_cap := c, buffer := new, bufferAddress := addr new\<rparr>)))
      else Inr (h, s))"

text \<open>\<^verbatim>\<open>Storage.set(index, value)\<close>: \<open>value\<close> is an interface holding a pointer;
  \<^verbatim>\<open>rValue.UnsafePointer()\<close> is that pointer.\<close>

definition Storage_set :: "heap \<Rightarrow> Storage \<Rightarrow> u32 \<Rightarrow> pointer \<Rightarrow> error + heap" where
  "Storage_set h s index val = copy h val (Storage_Get s index) (s_itemSize s)"

text \<open>
  \<^verbatim>\<open>
  func (s *Storage) Add(value interface{}) (index uint32) {
      s.extend()
      s.len++
      s.set(s.len-1, value)
      return s.len - 1
  }
  \<close>
\<close>

definition Storage_Add :: "heap \<Rightarrow> Storage \<Rightarrow> pointer \<Rightarrow> error + heap \<times> Storage \<times> u32" where
  "Storage_Add h s val =
     (case Storage_extend h s of
        Inl e \<Rightarrow> Inl e
      | Inr (h1, s1) \<Rightarrow>
          (let s2 = s1\<lparr>s_len := s_len s1 + 1\<rparr>
           in case Storage_set h1 s2 (s_len s2 - 1) val of
                Inl e \<Rightarrow> Inl e
              | Inr h2 \<Rightarrow> Inr (h2, s2, s_len s2 - 1)))"

text \<open>
  \<^verbatim>\<open>
  func (s *Storage) Remove(index uint32) bool {
      o := s.len - 1
      n := index
      if n < o {
          size := s.itemSize
          src := unsafe.Add(s.bufferAddress, uintptr(o)*s.itemSize)
          dst := unsafe.Add(s.bufferAddress, uintptr(n)*s.itemSize)
          dstSlice := (*[math.MaxInt32]byte)(dst)[:size:size]
          srcSlice := (*[math.MaxInt32]byte)(src)[:size:size]
          copy(dstSlice, srcSlice)
          s.len--
          return true
      }
      s.len--
      return false
  }
  \<close>
\<close>

definition Storage_Remove :: "heap \<Rightarrow> Storage \<Rightarrow> u32 \<Rightarrow> error + heap \<times> Storage \<times> bool" where
  "Storage_Remove h s index =
     (let o' = s_len s - 1;
          n = index
      in if n < o' then
           (let size = s_itemSize s;
                src = unsafe_Add (bufferAddress s) (ucast o' * s_itemSize s);
                dst = unsafe_Add (bufferAddress s) (ucast n * s_itemSize s)
            in case copy h src dst size of
                 Inl e \<Rightarrow> Inl e
               | Inr h' \<Rightarrow> Inr (h', s\<lparr>s_len := s_len s - 1\<rparr>, True))
         else Inr (h, s\<lparr>s_len := s_len s - 1\<rparr>, False))"

text \<open>What the constructor and \<^verbatim>\<open>extend\<close> maintain of a storage: its buffer is one
  block of \<open>cap\<close> elements of the element type, addressed at offset zero. The bound on
  the element size is the one the slicing in \<^verbatim>\<open>copy\<close> needs.\<close>

definition Storage_ok :: "heap \<Rightarrow> Storage \<Rightarrow> bool" where
  "Storage_ok h s \<longleftrightarrow>
     (case bufferAddress s of
        Raw a \<Rightarrow> False
      | Ptr b off \<Rightarrow>
          off = 0 \<and> b < length h \<and>
          length (h ! b) = unat (s_cap s) * unat (s_itemSize s) \<and>
          unat (s_itemSize s) \<le> MaxInt32)"

text \<open>The bytes of element \<open>i\<close> of a storage.\<close>

definition Storage_item :: "heap \<Rightarrow> Storage \<Rightarrow> u32 \<Rightarrow> byte list option" where
  "Storage_item h s i = load h (Storage_Get s i) (unat (s_itemSize s))"

section \<open>The archetype (ecs/archetype.go)\<close>

text \<open>Modelled from the spec: the type \<^verbatim>\<open>Mask\<close> and the constant \<^verbatim>\<open>MaskTotalBits\<close> are
  not among the sources. The spec (4.2) describes the mask as a fixed-width bitset over the
  component ids with \<open>set(id, bool)\<close> and \<open>get(id)\<close>; \<^verbatim>\<open>MaskTotalBits\<close> is a parameter
  \<open>mtb\<close> of the functions that use it.\<close>

type_synonym Mask = "bool list"

definition Mask_zero :: "nat \<Rightarrow> Mask" where
  "Mask_zero mtb = replicate mtb False"

definition Mask_Set :: "Mask \<Rightarrow> ID \<Rightarrow> bool \<Rightarrow> Mask" where
  "Mask_Set m i v = m[unat i := v]"

definition Mask_Get :: "Mask \<Rightarrow> ID \<Rightarrow> bool" where
  "Mask_Get m i \<longleftrightarrow> unat i < length m \<and> m ! unat i"

text \<open>\<^verbatim>\<open>componentType\<close> and \<^verbatim>\<open>Component\<close> of \<^verbatim>\<open>ecs/types.go\<close>; the component value is
  an interface holding a pointer, read through \<^verbatim>\<open>UnsafePointer()\<close>.\<close>

record componentType =
  ID :: ID
  Type :: rtype

record Component =
  comp_ID :: ID
  Comp :: pointer

record layout =
  pointer :: pointer
  itemSize :: uintptr

text \<open>
  The fields of \<^verbatim>\<open>archetype\<close>. The graph node is only stored and is left out. The field
  \<^verbatim>\<open>access\<close> holds \<^verbatim>\<open>&a.layouts[0]\<close> and \<^verbatim>\<open>unsafe.Sizeof(a.layouts[0])\<close>, so that
  \<^verbatim>\<open>getStorage(id)\<close> is the address of \<^verbatim>\<open>a.layouts[id]\<close>, computed without a bounds
  check: the access table and \<open>layouts\<close> are the same memory.
\<close>

record archetype =
  Mask :: Mask
  Ids :: "ID list"
  buffers :: "rvalue list"
  layouts :: "layout list"
  indices :: "u32 list"
  entities :: Storage
  a_len :: u32
  a_cap :: u32
  a_capacityIncrement :: u32

text \<open>\<^verbatim>\<open>layout.Get\<close>: \<^verbatim>\<open>nil\<close> for a \<^verbatim>\<open>nil\<close> pointer, else
  \<^verbatim>\<open>unsafe.Add(l.pointer, l.itemSize*index)\<close>.\<close>

definition layout_Get :: "layout \<Rightarrow> uintptr \<Rightarrow> pointer" where
  "layout_Get l index =
     (if pointer l = nil then nil else unsafe_Add (pointer l) (itemSize l * index))"

text \<open>\<^verbatim>\<open>archetypeAccess.getStorage\<close>:
  \<^verbatim>\<open>(*layout)(unsafe.Add(a.basePointer, a.layoutSize*uintptr(id)))\<close>.\<close>

definition getStorage :: "archetype \<Rightarrow> ID \<Rightarrow> error + layout" where
  "getStorage a i =
     (if unat i < length (layouts a) then Inr (layouts a ! unat i) else Inl OutOfBounds)"

text \<open>\<^verbatim>\<open>archetypeAccess.Get\<close>: \<^verbatim>\<open>a.getStorage(id).Get(index)\<close>.\<close>

definition Get :: "archetype \<Rightarrow> uintptr \<Rightarrow> ID \<Rightarrow> error + pointer" where
  "Get a index i =
     (case getStorage a i of Inl e \<Rightarrow> Inl e | Inr l \<Rightarrow> Inr (layout_Get l index))"

text \<open>\<^verbatim>\<open>archetype.HasComponent\<close>: \<^verbatim>\<open>a.access.getStorage(id).pointer != nil\<close>.\<close>

definition HasComponent :: "archetype \<Rightarrow> ID \<Rightarrow> error + bool" where
  "HasComponent a i =
     (case getStorage a i of Inl e \<Rightarrow> Inl e | Inr l \<Rightarrow> Inr (pointer l \<noteq> nil))"

text \<open>Modelled from the spec: the type \<^verbatim>\<open>storage\<close> of the entities column and its
  \<^verbatim>\<open>Init\<close> are not among the sources, nor is the declaration of \<^verbatim>\<open>Entity\<close>. The
  entities column is the \<^verbatim>\<open>Storage\<close> of \<^verbatim>\<open>ecs/storage.go\<close>, the column of the spec
  (4.1); by the spec (4.4) its grow increment is 1 when \<open>for_storage\<close> is false and the
  configured increment otherwise. The type of \<^verbatim>\<open>Entity\<close> is a parameter, and an entity
  is passed as its bytes.\<close>

definition storage_Init :: "heap \<Rightarrow> rtype \<Rightarrow> int \<Rightarrow> bool \<Rightarrow> error + heap \<times> Storage" where
  "storage_Init h tp capacityIncrement forStorage =
     NewReflectStorage h tp (if forStorage then capacityIncrement else 1)"

text \<open>
  The loop of \<^verbatim>\<open>archetype.Init\<close> over the components, with the running index \<open>i\<close>:
  \<^verbatim>\<open>
  prev := -1
  for i, c := range components {
      if int(c.ID) <= prev {
          panic("component arguments must be sorted by ID")
      }
      prev = int(c.ID)
      mask.Set(c.ID, true)

      size, align := c.Type.Size(), uintptr(c.Type.Align())
      size = (size + (align - 1)) / align * align

      a.Ids[i] = c.ID
      a.buffers[i] = reflect.New(reflect.ArrayOf(cap, c.Type)).Elem()
      a.layouts[c.ID] = layout{
          a.buffers[i].Addr().UnsafePointer(),
          size,
      }
      a.indices[c.ID] = uint32(i)
  }
  \<close>
  \<open>Ids\<close> and \<open>buffers\<close> have one slot per component, so the index \<open>i\<close> is in range;
  \<open>layouts\<close> and \<open>indices\<close> have \<^verbatim>\<open>MaskTotalBits\<close> slots, and an id beyond them is
  Go's index panic.
\<close>

fun Init_loop ::
  "int \<Rightarrow> heap \<Rightarrow> archetype \<Rightarrow> Mask \<Rightarrow> int \<Rightarrow> nat \<Rightarrow> componentType list
     \<Rightarrow> error + heap \<times> archetype \<times> Mask" where
  "Init_loop cap h a msk prev i [] = Inr (h, a, msk)"
| "Init_loop cap h a msk prev i (c # cs) =
     (if uint (ID c) \<le> prev
      then Inl (Panic ''component arguments must be sorted by ID'')
      else
        let msk' = Mask_Set msk (ID c) True;
            size = Size (Type c);
            align = (word_of_int (Align (Type c)) :: uintptr)
        in if align = 0 then Inl (Panic ''runtime error: integer divide by zero'')
           else
             let size' = (size + (align - 1)) div align * align
             in case reflect_New_ArrayOf h cap (Type c) of
                  Inl e \<Rightarrow> Inl e
                | Inr (h', buf) \<Rightarrow>
                    if length (layouts a) \<le> unat (ID c) \<or> length (indices a) \<le> unat (ID c)
                    then Inl (Panic ''runtime error: index out of range'')
                    else Init_loop cap h'
                           (a\<lparr>Ids := (Ids a)[i := ID c],
                              buffers := (buffers a)[i := buf],
                              layouts := (layouts a)[unat (ID c) :=
                                           \<lparr>pointer = addr buf, itemSize = size'\<rparr>],
                              indices := (indices a)[unat (ID c) := of_nat i]\<rparr>)
                           msk' (uint (ID c)) (Suc i) cs)"

text \<open>
  \<^verbatim>\<open>archetype.Init(node, capacityIncrement, forStorage, components...)\<close> on the
  archetype \<open>a\<close>: it allocates the tables, runs the loop, initialises the entities column
  and sets the mask, the increment, the length and the capacity.
  \<^verbatim>\<open>
  if len(components) > 0 { a.Ids = make([]ID, len(components)) }
  a.buffers = make([]reflect.Value, len(components))
  a.layouts = make([]layout, MaskTotalBits)
  a.indices = make([]uint32, MaskTotalBits)
  cap := 1
  if forStorage { cap = capacityIncrement }
  ...
  a.entities = storage{}
  a.entities.Init(reflect.TypeOf(Entity{}), capacityIncrement, forStorage)
  a.Mask = mask
  a.capacityIncrement = uint32(capacityIncrement)
  a.len = 0
  a.cap = uint32(cap)
  \<close>
\<close>

definition Init ::
  "nat \<Rightarrow> rtype \<Rightarrow> heap \<Rightarrow> archetype \<Rightarrow> int \<Rightarrow> bool \<Rightarrow> componentType list
     \<Rightarrow> error + heap \<times> archetype" where
  "Init mtb entityType h a capacityIncrement forStorage components =
     (let a1 = a\<lparr>Ids := (if components \<noteq> [] then replicate (length components) 0 else Ids a),
                 buffers := replicate (length components) zeroValue,
                 layouts := replicate mtb \<lparr>pointer = nil, itemSize = 0\<rparr>,
                 indices := replicate mtb 0\<rparr>;
          cap = (if forStorage then capacityIncrement else 1)
      in case Init_loop cap h a1 (Mask_zero mtb) (- 1) 0 components of
           Inl e \<Rightarrow> Inl e
         | Inr (h1, a2, msk) \<Rightarrow>
             (case storage_Init h1 entityType capacityIncrement forStorage of
                Inl e \<Rightarrow> Inl e
              | Inr (h2, ents) \<Rightarrow>
                  Inr (h2, a2\<lparr>entities := ents, Mask := msk,
                              a_capacityIncrement := word_of_int capacityIncrement,
                              a_len := 0,
                              a_cap := word_of_int cap\<rparr>)))"

text \<open>
  The loop of \<^verbatim>\<open>archetype.extend\<close>:
  \<^verbatim>\<open>
  for _, id := range a.Ids {
      lay := a.access.getStorage(id)
      if lay.itemSize == 0 {
          continue
      }
      index := a.indices[id]
      old := a.buffers[index]
      a.buffers[index] = reflect.New(reflect.ArrayOf(int(a.cap), old.Type().Elem())).Elem()
      lay.pointer = a.buffers[index].Addr().UnsafePointer()
      reflect.Copy(a.buffers[index], old)
  }
  \<close>
  \<open>lay\<close> points into \<open>layouts\<close>, so the assignment to \<^verbatim>\<open>lay.pointer\<close> updates the table.
\<close>

fun extend_loop :: "heap \<Rightarrow> archetype \<Rightarrow> ID list \<Rightarrow> error + heap \<times> archetype" where
  "extend_loop h a [] = Inr (h, a)"
| "extend_loop h a (i # ids) =
     (case getStorage a i of
        Inl e \<Rightarrow> Inl e
      | Inr lay \<Rightarrow>
          if itemSize lay = 0 then extend_loop h a ids
          else if length (indices a) \<le> unat i
          then Inl (Panic ''runtime error: index out of range'')
          else
            let index = unat (indices a ! unat i)
            in if length (buffers a) \<le> index
               then Inl (Panic ''runtime error: index out of range'')
               else
                 let old = buffers a ! index
                 in if addr old = nil
                    then Inl (Panic ''reflect: call of reflect.Value.Type on zero Value'')
                    else
                      (case reflect_New_ArrayOf h (uint (a_cap a)) (elemType old) of
                         Inl e \<Rightarrow> Inl e
                       | Inr (h1, new) \<Rightarrow>
                           (case reflect_Copy h1 new old of
                              Inl e \<Rightarrow> Inl e
                            | Inr h2 \<Rightarrow>
                                extend_loop h2
                                  (a\<lparr>buffers := (buffers a)[index := new],
                                     layouts := (layouts a)[unat i := lay\<lparr>pointer := addr new\<rparr>]\<rparr>)
                                  ids)))"

text \<open>
  \<^verbatim>\<open>
  func (a *archetype) extend() {
      if a.cap > a.len {
          return
      }
      a.cap = a.capacityIncrement * ((a.cap + a.capacityIncrement) / a.capacityIncrement)
      for _, id := range a.Ids { ... }
  }
  \<close>
  The division is Go's unsigned integer division, which panics on a zero divisor.
\<close>

definition extend :: "heap \<Rightarrow> archetype \<Rightarrow> error + heap \<times> archetype" where
  "extend h a =
     (if a_len a < a_cap a then Inr (h, a)
      else if a_capacityIncrement a = 0
      then Inl (Panic ''runtime error: integer divide by zero'')
      else
        let a1 = a\<lparr>a_cap := a_capacityIncrement a *
                              ((a_cap a + a_capacityIncrement a) div a_capacityIncrement a)\<rparr>
        in extend_loop h a1 (Ids a1))"

text \<open>
  The byte loop of \<^verbatim>\<open>archetype.Zero\<close>, \<open>n\<close> bytes from \<open>dst\<close>:
  \<^verbatim>\<open>
  for i := uintptr(0); i < lay.itemSize; i++ {
      *(*byte)(dst) = 0
      dst = unsafe.Add(dst, 1)
  }
  \<close>
\<close>

fun Zero_loop :: "heap \<Rightarrow> pointer \<Rightarrow> nat \<Rightarrow> error + heap" where
  "Zero_loop h dst 0 = Inr h"
| "Zero_loop h dst (Suc n) =
     (case store h dst [0] of
        None \<Rightarrow> Inl OutOfBounds
      | Some h' \<Rightarrow> Zero_loop h' (unsafe_Add dst 1) n)"

text \<open>
  \<^verbatim>\<open>
  func (a *archetype) Zero(index uintptr, id ID) {
      lay := a.access.getStorage(id)
      if lay.itemSize == 0 {
          return
      }
      dst := unsafe.Add(lay.pointer, index*lay.itemSize)
      for ... 
  }
  \<close>
\<close>

definition Zero :: "heap \<Rightarrow> archetype \<Rightarrow> uintptr \<Rightarrow> ID \<Rightarrow> error + heap" where
  "Zero h a index i =
     (case getStorage a i of
        Inl e \<Rightarrow> Inl e
      | Inr lay \<Rightarrow>
          if itemSize lay = 0 then Inr h
          else Zero_loop h (unsafe_Add (pointer lay) (index * itemSize lay)) (unat (itemSize lay)))"

text \<open>\<^verbatim>\<open>archetype.ZeroAll\<close>: \<^verbatim>\<open>for _, id := range a.Ids { a.Zero(index, id) }\<close>.\<close>

fun ZeroAll_loop :: "heap \<Rightarrow> archetype \<Rightarrow> uintptr \<Rightarrow> ID list \<Rightarrow> error + heap" where
  "ZeroAll_loop h a index [] = Inr h"
| "ZeroAll_loop h a index (i # ids) =
     (case Zero h a index i of
        Inl e \<Rightarrow> Inl e
      | Inr h' \<Rightarrow> ZeroAll_loop h' a index ids)"

definition ZeroAll :: "heap \<Rightarrow> archetype \<Rightarrow> uintptr \<Rightarrow> error + heap" where
  "ZeroAll h a index = ZeroAll_loop h a index (Ids a)"

text \<open>
  \<^verbatim>\<open>
  func (a *archetype) Alloc(entity Entity, zero bool) uintptr {
      idx := uintptr(a.entities.Add(&entity))
      a.extend()
      if zero {
          a.ZeroAll(idx)
      }
      a.len++
      return idx
  }
  \<close>
  \<^verbatim>\<open>&entity\<close> is the address of the parameter, a fresh variable holding the entity.
\<close>

definition Alloc ::
  "heap \<Rightarrow> archetype \<Rightarrow> byte list \<Rightarrow> bool \<Rightarrow> error + heap \<times> archetype \<times> uintptr" where
  "Alloc h a entity zero =
     (case Storage_Add (h @ [entity]) (entities a) (Ptr (length h) 0) of
        Inl e \<Rightarrow> Inl e
      | Inr (h1, ents, i) \<Rightarrow>
          (let idx = (ucast i :: uintptr)
           in case extend h1 (a\<lparr>entities := ents\<rparr>) of
                Inl e \<Rightarrow> Inl e
              | Inr (h2, a2) \<Rightarrow>
                  (case (if zero then ZeroAll h2 a2 idx else Inr h2) of
                     Inl e \<Rightarrow> Inl e
                   | Inr h3 \<Rightarrow> Inr (h3, a2\<lparr>a_len := a_len a2 + 1\<rparr>, idx))))"

text \<open>
  The loop of \<^verbatim>\<open>archetype.Add\<close> over the supplied components:
  \<^verbatim>\<open>
  for _, c := range components {
      lay := a.access.getStorage(c.ID)
      dst := a.access.Get(uintptr(idx), c.ID)
      if lay.itemSize == 0 {
          continue
      }
      rValue := reflect.ValueOf(c.Comp)
      src := rValue.UnsafePointer()
      a.copy(src, dst, lay.itemSize)
  }
  \<close>
\<close>

fun Add_loop :: "heap \<Rightarrow> archetype \<Rightarrow> u32 \<Rightarrow> Component list \<Rightarrow> error + heap" where
  "Add_loop h a idx [] = Inr h"
| "Add_loop h a idx (c # cs) =
     (case getStorage a (comp_ID c) of
        Inl e \<Rightarrow> Inl e
      | Inr lay \<Rightarrow>
          (let dst = layout_Get lay (ucast idx)
           in if itemSize lay = 0 then Add_loop h a idx cs
              else case copy h (Comp c) dst (itemSize lay) of
                     Inl e \<Rightarrow> Inl e
                   | Inr h' \<Rightarrow> Add_loop h' a idx cs))"

text \<open>
  \<^verbatim>\<open>
  func (a *archetype) Add(entity Entity, components ...Component) uint32 {
      if len(components) != len(a.Ids) {
          panic("Invalid number of components")
      }
      idx := a.entities.Add(&entity)
      a.extend()
      a.len++
      for _, c := range components { ... }
      return idx
  }
  \<close>
\<close>

definition Add ::
  "heap \<Rightarrow> archetype \<Rightarrow> byte list \<Rightarrow> Component list \<Rightarrow> error + heap \<times> archetype \<times> u32" where
  "Add h a entity components =
     (if length components \<noteq> length (Ids a)
      then Inl (Panic ''Invalid number of components'')
      else case Storage_Add (h @ [entity]) (entities a) (Ptr (length h) 0) of
             Inl e \<Rightarrow> Inl e
           | Inr (h1, ents, idx) \<Rightarrow>
               (case extend h1 (a\<lparr>entities := ents\<rparr>) of
                  Inl e \<Rightarrow> Inl e
                | Inr (h2, a2) \<Rightarrow>
                    (let a3 = a2\<lparr>a_len := a_len a2 + 1\<rparr>
                     in case Add_loop h2 a3 idx components of
                          Inl e \<Rightarrow> Inl e
                        | Inr h3 \<Rightarrow> Inr (h3, a3, idx))))"

text \<open>
  The loop of \<^verbatim>\<open>archetype.Remove\<close> over the component columns, \<open>o\<close> the old last row
  and \<open>n\<close> the removed row:
  \<^verbatim>\<open>
  for _, id := range a.Ids {
      lay := a.access.getStorage(id)
      o := uintptr(oldIndex)
      n := uintptr(index)
      if n == o || lay.itemSize == 0 {
          continue
      }
      src := unsafe.Add(lay.pointer, o*lay.itemSize)
      dst := unsafe.Add(lay.pointer, n*lay.itemSize)
      a.copy(src, dst, lay.itemSize)
  }
  \<close>
\<close>

fun Remove_loop :: "heap \<Rightarrow> archetype \<Rightarrow> uintptr \<Rightarrow> uintptr \<Rightarrow> ID list \<Rightarrow> error + heap" where
  "Remove_loop h a o' n [] = Inr h"
| "Remove_loop h a o' n (i # ids) =
     (case getStorage a i of
        Inl e \<Rightarrow> Inl e
      | Inr lay \<Rightarrow>
          if n = o' \<or> itemSize lay = 0 then Remove_loop h a o' n ids
          else
            (let src = unsafe_Add (pointer lay) (o' * itemSize lay);
                 dst = unsafe_Add (pointer lay) (n * itemSize lay)
             in case copy h src dst (itemSize lay) of
                  Inl e \<Rightarrow> Inl e
                | Inr h' \<Rightarrow> Remove_loop h' a o' n ids))"

text \<open>
  \<^verbatim>\<open>
  func (a *archetype) Remove(index uintptr) bool {
      swapped := a.entities.Remove(index)
      oldIndex := a.len - 1
      for _, id := range a.Ids { ... }
      a.len--
      return swapped
  }
  \<close>
  \<^verbatim>\<open>Storage.Remove\<close> takes a \<^verbatim>\<open>uint32\<close>; the row is converted.
\<close>

definition Remove :: "heap \<Rightarrow> archetype \<Rightarrow> uintptr \<Rightarrow> error + heap \<times> archetype \<times> bool" where
  "Remove h a index =
     (case Storage_Remove h (entities a) (ucast index) of
        Inl e \<Rightarrow> Inl e
      | Inr (h1, ents, swapped) \<Rightarrow>
          (let a1 = a\<lparr>entities := ents\<rparr>;
               oldIndex = a_len a1 - 1
           in case Remove_loop h1 a1 (ucast oldIndex) index (Ids a1) of
                Inl e \<Rightarrow> Inl e
              | Inr h2 \<Rightarrow> Inr (h2, a1\<lparr>a_len := a_len a1 - 1\<rparr>, swapped)))"

text \<open>
  \<^verbatim>\<open>
  func (a *archetype) Set(index uintptr, id ID, comp interface{}) unsafe.Pointer {
      lay := a.access.getStorage(id)
      dst := a.access.Get(index, id)
      if lay.itemSize == 0 {
          return dst
      }
      rValue := reflect.ValueOf(comp)
      src := rValue.UnsafePointer()
      a.copy(src, dst, lay.itemSize)
      return dst
  }
  \<close>
  \<^verbatim>\<open>Set\<close> writes memory only; the archetype value stays as it is.
\<close>

definition Set :: "heap \<Rightarrow> archetype \<Rightarrow> uintptr \<Rightarrow> ID \<Rightarrow> pointer \<Rightarrow> error + heap \<times> pointer" where
  "Set h a index i cmp =
     (case getStorage a i of
        Inl e \<Rightarrow> Inl e
      | Inr lay \<Rightarrow>
          (let dst = layout_Get lay index
           in if itemSize lay = 0 then Inr (h, dst)
              else case copy h cmp dst (itemSize lay) of
                     Inl e \<Rightarrow> Inl e
                   | Inr h' \<Rightarrow> Inr (h', dst)))"

section \<open>Invariants\<close>

text \<open>The \<^verbatim>\<open>reflect.Value\<close> that a storage keeps beside the raw address describes the same
  buffer.\<close>

definition Storage_buffer_ok :: "Storage \<Rightarrow> bool" where
  "Storage_buffer_ok s \<longleftrightarrow>
     buffer s = \<lparr>elemType = typeOf s, count = unat (s_cap s), addr = bufferAddress s\<rparr> \<and>
     Size (typeOf s) = s_itemSize s"

text \<open>
  What \<^verbatim>\<open>Init\<close> and \<^verbatim>\<open>extend\<close> maintain of the column of id \<open>i\<close>, for a column of
  \<open>n\<close> rows: the layout entry exists, and when the item size is not zero the entry points
  to offset zero of a block of \<open>n\<close> items, which is the array that \<open>buffers\<close> holds for the
  id. The bound on the item size is the one the slicing in \<^verbatim>\<open>copy\<close> needs.
\<close>

definition column_ok :: "heap \<Rightarrow> archetype \<Rightarrow> nat \<Rightarrow> ID \<Rightarrow> bool" where
  "column_ok h a n i \<longleftrightarrow>
     unat i < length (layouts a) \<and>
     (itemSize (layouts a ! unat i) \<noteq> 0 \<longrightarrow>
        unat i < length (indices a) \<and>
        unat (indices a ! unat i) < length (buffers a) \<and>
        unat (itemSize (layouts a ! unat i)) \<le> MaxInt32 \<and>
        Size (elemType (buffers a ! unat (indices a ! unat i))) = itemSize (layouts a ! unat i) \<and>
        count (buffers a ! unat (indices a ! unat i)) = n \<and>
        addr (buffers a ! unat (indices a ! unat i)) = pointer (layouts a ! unat i) \<and>
        (case pointer (layouts a ! unat i) of
           Raw x \<Rightarrow> False
         | Ptr b off \<Rightarrow>
             off = 0 \<and> b < length h \<and>
             length (h ! b) = n * unat (itemSize (layouts a ! unat i))))"

text \<open>The ids whose columns take memory, and the base pointer of a column.\<close>

definition columns :: "archetype \<Rightarrow> ID list" where
  "columns a = filter (\<lambda>i. itemSize (layouts a ! unat i) \<noteq> 0) (Ids a)"

definition column_pointer :: "archetype \<Rightarrow> ID \<Rightarrow> pointer" where
  "column_pointer a i = pointer (layouts a ! unat i)"

text \<open>
  The invariant of an archetype (spec, section 3): every column is in order at the
  archetype's capacity, the columns that take memory and the entities column are separate
  allocations, the entities column is as long as the archetype, and the length is at most
  the capacity.
\<close>

definition archetype_ok :: "heap \<Rightarrow> archetype \<Rightarrow> bool" where
  "archetype_ok h a \<longleftrightarrow>
     (\<forall>i\<in>set (Ids a). column_ok h a (unat (a_cap a)) i) \<and>
     distinct (map (column_pointer a) (columns a)) \<and>
     Storage_ok h (entities a) \<and>
     Storage_buffer_ok (entities a) \<and>
     bufferAddress (entities a) \<notin> set (map (column_pointer a) (columns a)) \<and>
     s_len (entities a) = a_len a \<and>
     a_len a \<le> a_cap a \<and>
     s_len (entities a) \<le> s_cap (entities a)"

text \<open>The bytes of row \<open>row\<close> of the column of id \<open>i\<close>: what is behind
  \<^verbatim>\<open>Get(row, i)\<close>, for the item size of the column.\<close>

definition row_bytes :: "heap \<Rightarrow> archetype \<Rightarrow> ID \<Rightarrow> uintptr \<Rightarrow> byte list option" where
  "row_bytes h a i row =
     load h (layout_Get (layouts a ! unat i) row) (unat (itemSize (layouts a ! unat i)))"

section \<open>Concrete states\<close>

text \<open>A storage of two one-byte elements in block 0, with a given length.\<close>

definition ex_storage :: "u32 \<Rightarrow> Storage" where
  "ex_storage n =
     \<lparr>buffer = \<lparr>elemType = \<lparr>Size = 1, Align = 1\<rparr>, count = 2, addr = Ptr 0 0\<rparr>,
      bufferAddress = Ptr 0 0, typeOf = \<lparr>Size = 1, Align = 1\<rparr>, s_itemSize = 1,
      s_len = n, s_cap = 2, s_capacityIncrement = 2\<rparr>"

text \<open>The zero values of \<^verbatim>\<open>Storage\<close> and \<^verbatim>\<open>archetype\<close>, on which \<^verbatim>\<open>Init\<close> is called.\<close>

definition zeroStorage :: Storage where
  "zeroStorage = \<lparr>buffer = zeroValue, bufferAddress = nil, typeOf = \<lparr>Size = 0, Align = 0\<rparr>,
                   s_itemSize = 0, s_len = 0, s_cap = 0, s_capacityIncrement = 0\<rparr>"

definition zeroArchetype :: archetype where
  "zeroArchetype = \<lparr>Mask = [], Ids = [], buffers = [], layouts = [], indices = [],
                     entities = zeroStorage, a_len = 0, a_cap = 0, a_capacityIncrement = 0\<rparr>"

text \<open>The component types of the spec's scenarios: \<open>Position\<close> of two \<^verbatim>\<open>int32\<close>, the
  empty struct \<open>Tag\<close>, and an entity of two \<^verbatim>\<open>uint32\<close>.\<close>

definition Position :: rtype where
  "Position = \<lparr>Size = 8, Align = 4\<rparr>"

definition Tag :: rtype where
  "Tag = \<lparr>Size = 0, Align = 1\<rparr>"

definition EntityType :: rtype where
  "EntityType = \<lparr>Size = 8, Align = 4\<rparr>"

text \<open>The archetype that \<^verbatim>\<open>Init\<close> builds on the empty heap for \<open>Position\<close> with id 1
  and \<open>Tag\<close> with id 3, for storage with increment 2 and four mask bits, and its heap:
  block 0 is the \<open>Position\<close> column, block 1 the \<open>Tag\<close> column, block 2 the entities.\<close>

definition ex_components :: "componentType list" where
  "ex_components = [\<lparr>ID = 1, Type = Position\<rparr>, \<lparr>ID = 3, Type = Tag\<rparr>]"

definition ex_heap :: heap where
  "ex_heap = [[0, 0, 0, 0, 0, 0, 0, 0, 0, 0, 0, 0, 0, 0, 0, 0], [],
              [0, 0, 0, 0, 0, 0, 0, 0, 0, 0, 0, 0, 0, 0, 0, 0]]"

definition ex_archetype :: archetype where
  "ex_archetype =
     \<lparr>Mask = [False, True, False, True],
      Ids = [1, 3],
      buffers = [\<lparr>elemType = Position, count = 2, addr = Ptr 0 0\<rparr>,
                 \<lparr>elemType = Tag, count = 2, addr = Ptr 1 0\<rparr>],
      layouts = [\<lparr>pointer = nil, itemSize = 0\<rparr>,
                 \<lparr>pointer = Ptr 0 0, itemSize = 8\<rparr>,
                 \<lparr>pointer = nil, itemSize = 0\<rparr>,
                 \<lparr>pointer = Ptr 1 0, itemSize = 0\<rparr>],
      indices = [0, 0, 0, 1],
      entities = \<lparr>buffer = \<lparr>elemType = EntityType, count = 2, addr = Ptr 2 0\<rparr>,
                  bufferAddress = Ptr 2 0, typeOf = EntityType, s_itemSize = 8,
                  s_len = 0, s_cap = 2, s_capacityIncrement = 2\<rparr>,
      a_len = 0, a_cap = 2, a_capacityIncrement = 2\<rparr>"

text \<open>The example archetype after \<^verbatim>\<open>Alloc\<close> of one entity, and its heap; block 3 is the
  variable that held the entity.\<close>

definition ex_entity :: "byte list" where
  "ex_entity = [1, 0, 0, 0, 0, 0, 0, 0]"

definition ex_heap1 :: heap where
  "ex_heap1 = [[0, 0, 0, 0, 0, 0, 0, 0, 0, 0, 0, 0, 0, 0, 0, 0], [],
               [1, 0, 0, 0, 0, 0, 0, 0, 0, 0, 0, 0, 0, 0, 0, 0],
               [1, 0, 0, 0, 0, 0, 0, 0]]"

definition ex_archetype1 :: archetype where
  "ex_archetype1 =
     ex_archetype\<lparr>entities := (entities ex_archetype)\<lparr>s_len := 1\<rparr>, a_len := 1\<rparr>"

text \<open>The example archetype with two entities, after a second \<^verbatim>\<open>Alloc\<close> and a \<^verbatim>\<open>Set\<close> of
  each \<open>Position\<close> from the bytes of the entity; blocks 3 and 4 are the variables that held
  the entities.\<close>

definition ex_entity2 :: "byte list" where
  "ex_entity2 = [2, 0, 0, 0, 0, 0, 0, 0]"

definition ex_heap2 :: heap where
  "ex_heap2 = [[1, 0, 0, 0, 0, 0, 0, 0, 2, 0, 0, 0, 0, 0, 0, 0], [],
               [1, 0, 0, 0, 0, 0, 0, 0, 2, 0, 0, 0, 0, 0, 0, 0],
               [1, 0, 0, 0, 0, 0, 0, 0],
               [2, 0, 0, 0, 0, 0, 0, 0]]"

definition ex_archetype2 :: archetype where
  "ex_archetype2 =
     ex_archetype\<lparr>entities := (entities ex_archetype)\<lparr>s_len := 2\<rparr>, a_len := 2\<rparr>"

section \<open>Memory and word arithmetic\<close>

lemma store_length: "store h p bs = Some h' \<Longrightarrow> length h' = length h"
  by (auto simp: store_def split: pointer.splits if_splits)

lemma store_block_length: "store h p bs = Some h' \<Longrightarrow> length (h' ! b) = length (h ! b)"
  by (auto simp: store_def nth_list_update split: pointer.splits if_splits)

lemma load_length: "load h p n = Some bs \<Longrightarrow> length bs = n"
  by (auto simp: load_def split: pointer.splits if_splits)

lemma load_store_same: "store h p bs = Some h' \<Longrightarrow> load h' p (length bs) = Some bs"
  by (auto simp: store_def load_def split: pointer.splits if_splits)

lemma store_other_block: "store h (Ptr b off) bs = Some h' \<Longrightarrow> b' \<noteq> b \<Longrightarrow> h' ! b' = h ! b'"
  by (auto simp: store_def split: if_splits)

lemma take_drop_frame:
  assumes "off' + n \<le> off \<or> off + length bs \<le> off'" "off + length bs \<le> length xs"
  shows "take n (drop off' (take off xs @ bs @ drop (off + length bs) xs)) = take n (drop off' xs)"
proof (rule nth_equalityI)
  show "length (take n (drop off' (take off xs @ bs @ drop (off + length bs) xs))) = length (take n (drop off' xs))"
    using assms by auto
next
  fix i assume "i < length (take n (drop off' (take off xs @ bs @ drop (off + length bs) xs)))"
  then have i: "i < n" "off' + i < length xs" using assms by auto
  from assms(1) show "take n (drop off' (take off xs @ bs @ drop (off + length bs) xs)) ! i = take n (drop off' xs) ! i"
  proof
    assume "off' + n \<le> off"
    with i assms(2) show ?thesis by (simp add: nth_append)
  next
    assume a: "off + length bs \<le> off'"
    with i assms(2) show ?thesis by (simp add: nth_append)
  qed
qed

lemma load_store_disj:
  assumes "store h (Ptr b off) bs = Some h'"
    and "b' \<noteq> b \<or> off' + n \<le> off \<or> off + length bs \<le> off'"
  shows "load h' (Ptr b' off') n = load h (Ptr b' off') n"
proof (cases "b' = b")
  case False
  with assms(1) show ?thesis
    by (auto simp: store_def load_def split: if_splits)
next
  case True
  with assms(2) have d: "off' + n \<le> off \<or> off + length bs \<le> off'" by simp
  from assms(1) have b: "b < length h" "off + length bs \<le> length (h ! b)"
    and h': "h' = h[b := take off (h ! b) @ bs @ drop (off + length bs) (h ! b)]"
    by (auto simp: store_def split: if_splits)
  show ?thesis
    using True b take_drop_frame [OF d b(2)] by (simp add: load_def h')
qed

lemma store_Some:
  "b < length h \<Longrightarrow> off + length bs \<le> length (h ! b) \<Longrightarrow> \<exists>h'. store h (Ptr b off) bs = Some h'"
  by (simp add: store_def)

lemma unat_ucast_u32: "unat (ucast (i :: u32) :: uintptr) = unat i"
  by (simp add: unsigned_ucast_eq take_bit_nat_eq_self_iff) (rule less_trans[OF unsigned_less], simp)

lemma u32_mult_bound:
  fixes i :: u32 and sz :: uintptr
  assumes "unat sz \<le> MaxInt32"
  shows "unat i * unat sz < 2 ^ 63"
proof -
  have "unat i < 2 ^ 32" using unsigned_less [of i] by simp
  then have "unat i * unat sz \<le> 2 ^ 32 * MaxInt32"
    using assms by (intro mult_le_mono) simp_all
  also have "\<dots> < 2 ^ 63" by (simp add: MaxInt32_def)
  finally show ?thesis .
qed

lemma unat_ucast_mult:
  fixes i :: u32 and sz :: uintptr
  assumes "unat sz \<le> MaxInt32"
  shows "unat (ucast i * sz) = unat i * unat sz"
proof -
  have "unat (ucast i :: uintptr) * unat sz < 2 ^ LENGTH(64)"
    using u32_mult_bound [OF assms, of i] by (simp add: unat_ucast_u32)
  then show ?thesis
    by (simp add: unat_mult_lem [THEN iffD1] unat_ucast_u32)
qed

lemma Storage_Get_ok:
  assumes "bufferAddress s = Ptr b 0" "unat (s_itemSize s) \<le> MaxInt32"
  shows "Storage_Get s i = Ptr b (unat i * unat (s_itemSize s))"
proof -
  have "unat i * unat (s_itemSize s) < 2 ^ 64"
    using u32_mult_bound [OF assms(2), of i] by simp
  then show ?thesis
    by (simp add: Storage_Get_def assms unat_ucast_mult)
qed

section \<open>Swap-remove in the reflection storage\<close>

lemma row_disjoint:
  fixes i j :: nat
  assumes "i \<noteq> j"
  shows "i * sz + sz \<le> j * sz \<or> j * sz + sz \<le> i * sz"
proof (cases "i < j")
  case True
  then have "Suc i * sz \<le> j * sz" by (intro mult_le_mono1) simp
  then show ?thesis by simp
next
  case False
  with assms have "Suc j * sz \<le> i * sz" by (intro mult_le_mono1) simp
  then show ?thesis by simp
qed

lemma row_in_bounds:
  fixes i n :: nat
  assumes "i < n"
  shows "i * sz + sz \<le> n * sz"
proof -
  from assms have "Suc i * sz \<le> n * sz" by (intro mult_le_mono1) simp
  then show ?thesis by simp
qed

lemma Storage_okE:
  assumes "Storage_ok h s"
  obtains b where "bufferAddress s = Ptr b 0" "b < length h"
    "length (h ! b) = unat (s_cap s) * unat (s_itemSize s)" "unat (s_itemSize s) \<le> MaxInt32"
  using assms by (auto simp: Storage_ok_def split: pointer.splits)

lemma Storage_ok_len_upd [simp]: "Storage_ok h (s\<lparr>s_len := n\<rparr>) = Storage_ok h s"
  by (simp add: Storage_ok_def split: pointer.splits)

lemma Storage_item_ok:
  assumes "bufferAddress s = Ptr b 0" "unat (s_itemSize s) \<le> MaxInt32"
  shows "Storage_item h s i = load h (Ptr b (unat i * unat (s_itemSize s))) (unat (s_itemSize s))"
  by (simp add: Storage_item_def Storage_Get_ok [OF assms])

lemma Storage_Remove_inbounds:
  assumes ok: "Storage_ok h s"
    and len: "index < s_len s" "s_len s \<le> s_cap s"
  shows "\<exists>h'. Storage_Remove h s index = Inr (h', s\<lparr>s_len := s_len s - 1\<rparr>, index < s_len s - 1)
           \<and> length h' = length h
           \<and> Storage_ok h' (s\<lparr>s_len := s_len s - 1\<rparr>)
           \<and> (index < s_len s - 1 \<longrightarrow> Storage_item h' s index = Storage_item h s (s_len s - 1))
           \<and> (\<forall>j. j \<noteq> index \<longrightarrow> Storage_item h' s j = Storage_item h s j)
           \<and> (\<forall>b'. bufferAddress s \<noteq> Ptr b' 0 \<longrightarrow> h' ! b' = h ! b')"
proof -
  from ok obtain b where b: "bufferAddress s = Ptr b 0" "b < length h"
    "length (h ! b) = unat (s_cap s) * unat (s_itemSize s)" and sz: "unat (s_itemSize s) \<le> MaxInt32"
    by (rule Storage_okE)
  let ?sz = "unat (s_itemSize s)"
  let ?s' = "s\<lparr>s_len := s_len s - 1\<rparr>"
  note item = Storage_item_ok [OF b(1) sz]
  have nsz: "\<not> MaxInt32 < ?sz" using sz by simp
  have get: "unsafe_Add (bufferAddress s) (ucast i * s_itemSize s) = Ptr b (unat i * ?sz)"
    for i :: u32
    using Storage_Get_ok [OF b(1) sz, of i] by (simp add: Storage_Get_def)
  show ?thesis
  proof (cases "index < s_len s - 1")
    case False
    then show ?thesis using ok by (simp add: Storage_Remove_def Let_def)
  next
    case True
    show ?thesis
    proof (cases "?sz = 0")
      case True
      with \<open>index < s_len s - 1\<close> ok show ?thesis
        by (simp add: Storage_Remove_def Let_def get copy_def nil_def nsz memmove_def item)
    next
      case False
      have "s_len s \<noteq> 0" using len(1) by auto
      then have lt: "unat (s_len s - 1) < unat (s_len s)"
        by (simp add: unat_minus_one unat_gt_0)
      have cap: "unat (s_len s) \<le> unat (s_cap s)" using len(2) by (simp add: word_le_nat_alt)
      have src_in: "unat (s_len s - 1) * ?sz + ?sz \<le> length (h ! b)"
        using row_in_bounds [of "unat (s_len s - 1)" "unat (s_cap s)" ?sz] lt cap b(3) by simp
      have idx: "unat index < unat (s_len s - 1)" using True by (simp add: word_less_nat_alt)
      have dst_in: "unat index * ?sz + ?sz \<le> length (h ! b)"
        using row_in_bounds [of "unat index" "unat (s_cap s)" ?sz] idx lt cap b(3) by simp
      obtain bs where bs: "load h (Ptr b (unat (s_len s - 1) * ?sz)) ?sz = Some bs"
        using src_in b(2) by (simp add: load_def)
      then have lbs: "length bs = ?sz" by (rule load_length)
      obtain h' where h': "store h (Ptr b (unat index * ?sz)) bs = Some h'"
        using store_Some [of b h "unat index * ?sz" bs] dst_in b(2) lbs by auto
      have rm: "Storage_Remove h s index = Inr (h', ?s', True)"
        using True False bs h'
        by (simp add: Storage_Remove_def Let_def get copy_def nil_def nsz memmove_def)
      have 1: "Storage_item h' s index = Storage_item h s (s_len s - 1)"
        using load_store_same [OF h'] bs by (simp add: item lbs)
      have 2: "Storage_item h' s j = Storage_item h s j" if "j \<noteq> index" for j
      proof -
        from that have "unat j \<noteq> unat index" by (simp add: word_unat_eq_iff)
        from row_disjoint [OF this, of ?sz] show ?thesis
          using load_store_disj [OF h', of b "unat j * ?sz" ?sz] by (auto simp: item lbs)
      qed
      have 3: "h' ! b' = h ! b'" if "bufferAddress s \<noteq> Ptr b' 0" for b'
        using store_other_block [OF h', of b'] that b(1) by auto
      have 4: "Storage_ok h' ?s'"
        using ok b store_length [OF h'] store_block_length [OF h', of b]
        by (simp add: Storage_ok_def)
      show ?thesis
        using rm 1 2 3 4 True store_length [OF h'] by simp
    qed
  qed
qed

lemma Storage_Remove_empty:
  assumes ok: "Storage_ok h s" and len: "s_len s = 0"
  shows "(index = - 1 \<or> s_itemSize s = 0 \<longrightarrow>
            Storage_Remove h s index = Inr (h, s\<lparr>s_len := - 1\<rparr>, index \<noteq> - 1))
       \<and> (index \<noteq> - 1 \<and> s_itemSize s \<noteq> 0 \<longrightarrow> Storage_Remove h s index = Inl OutOfBounds)"
proof -
  from ok obtain b where b: "bufferAddress s = Ptr b 0" "b < length h"
    "length (h ! b) = unat (s_cap s) * unat (s_itemSize s)" and sz: "unat (s_itemSize s) \<le> MaxInt32"
    by (rule Storage_okE)
  let ?sz = "unat (s_itemSize s)"
  have nsz: "\<not> MaxInt32 < ?sz" using sz by simp
  have get: "unsafe_Add (bufferAddress s) (ucast i * s_itemSize s) = Ptr b (unat i * ?sz)"
    for i :: u32
    using Storage_Get_ok [OF b(1) sz, of i] by (simp add: Storage_Get_def)
  have lt: "index < - 1 \<longleftrightarrow> index \<noteq> - 1"
    by (metis word_order.not_eq_extremum)
  have A: "Storage_Remove h s index = Inr (h, s\<lparr>s_len := - 1\<rparr>, index \<noteq> - 1)"
    if "index = - 1 \<or> s_itemSize s = 0"
    using that
    by (auto simp: Storage_Remove_def Let_def len lt get copy_def nil_def nsz memmove_def)
  have B: "Storage_Remove h s index = Inl OutOfBounds" if "index \<noteq> - 1" "s_itemSize s \<noteq> 0"
  proof -
    from that(2) have pos: "0 < ?sz" by (simp add: unat_gt_0)
    have "unat (s_cap s) < 2 ^ 32" using unsigned_less [of "s_cap s"] by simp
    then have "unat (s_cap s) * ?sz < 2 ^ 32 * ?sz" using pos by simp
    moreover have "unat (- 1 :: u32) = 2 ^ 32 - 1"
      by (simp add: unsigned_minus_1_eq_mask mask_eq_exp_minus_1)
    then have "unat (- 1 :: u32) * ?sz + ?sz = 2 ^ 32 * ?sz" by simp
    ultimately have "\<not> unat (- 1 :: u32) * ?sz + ?sz \<le> length (h ! b)"
      using b(3) by simp
    then have "load h (Ptr b (unat (- 1 :: u32) * ?sz)) ?sz = None"
      by (simp add: load_def)
    with that pos show ?thesis
      by (simp add: Storage_Remove_def Let_def len lt get copy_def nil_def nsz memmove_def)
  qed
  from A B show ?thesis by blast
qed

text \<open>
  C10. \<^verbatim>\<open>Storage.Remove\<close> checks no bounds. On a storage that satisfies its invariant,
  with \<open>index < len \<le> cap\<close>, it returns, the length decreases by exactly one and stays
  at most the capacity. On an empty storage the length wraps to \<open>2^32 - 1\<close>; the call
  returns with that length when the index is \<open>2^32 - 1\<close> or the element size is zero, and
  otherwise the swap branch reads at row \<open>2^32 - 1\<close>, outside the buffer.
\<close>

theorem Storage_Remove_unchecked:
  assumes "Storage_ok h s"
  shows "(index < s_len s \<and> s_len s \<le> s_cap s \<longrightarrow>
            (\<exists>h'. Storage_Remove h s index =
                     Inr (h', s\<lparr>s_len := s_len s - 1\<rparr>, index < s_len s - 1)) \<and>
            unat (s_len s - 1) = unat (s_len s) - 1 \<and> s_len s - 1 \<le> s_cap s)
       \<and> (s_len s = 0 \<longrightarrow>
            (index = 0xFFFFFFFF \<or> s_itemSize s = 0 \<longrightarrow>
               Storage_Remove h s index =
                 Inr (h, s\<lparr>s_len := 0xFFFFFFFF\<rparr>, index \<noteq> 0xFFFFFFFF)) \<and>
            (index \<noteq> 0xFFFFFFFF \<and> s_itemSize s \<noteq> 0 \<longrightarrow>
               Storage_Remove h s index = Inl OutOfBounds))"
proof (intro conjI impI)
  assume a: "index < s_len s \<and> s_len s \<le> s_cap s"
  with Storage_Remove_inbounds [OF assms, of index]
  show "\<exists>h'. Storage_Remove h s index = Inr (h', s\<lparr>s_len := s_len s - 1\<rparr>, index < s_len s - 1)"
    by blast
  from a have nz: "s_len s \<noteq> 0" by auto
  then show "unat (s_len s - 1) = unat (s_len s) - 1" by (rule unat_minus_one)
  moreover from a have "unat (s_len s) \<le> unat (s_cap s)" by (simp add: word_le_nat_alt)
  ultimately show "s_len s - 1 \<le> s_cap s"
    by (simp add: word_le_nat_alt)
next
  have m1: "(0xFFFFFFFF :: u32) = - 1" by simp
  assume "s_len s = 0" "index = 0xFFFFFFFF \<or> s_itemSize s = 0"
  with Storage_Remove_empty [OF assms, of index]
  show "Storage_Remove h s index = Inr (h, s\<lparr>s_len := 0xFFFFFFFF\<rparr>, index \<noteq> 0xFFFFFFFF)"
    unfolding m1 by blast
next
  have m1: "(0xFFFFFFFF :: u32) = - 1" by simp
  assume "s_len s = 0" "index \<noteq> 0xFFFFFFFF \<and> s_itemSize s \<noteq> 0"
  with Storage_Remove_empty [OF assms, of index]
  show "Storage_Remove h s index = Inl OutOfBounds"
    unfolding m1 by blast
qed

theorem Storage_Remove_unchecked_witness:
  "Storage_ok [[1, 2]] (ex_storage 2) \<and> Storage_ok [[1, 2]] (ex_storage 0) \<and>
   (\<exists>h'. Storage_Remove [[1, 2]] (ex_storage 2) 0 = Inr (h', ex_storage 1, True)) \<and>
   Storage_Remove [[1, 2]] (ex_storage 0) 0 = Inl OutOfBounds \<and>
   Storage_Remove [[1, 2]] (ex_storage 0) 0xFFFFFFFF = Inr ([[1, 2]], ex_storage 0xFFFFFFFF, False)"
proof -
  have ok2: "Storage_ok [[1, 2]] (ex_storage 2)" and ok0: "Storage_ok [[1, 2]] (ex_storage 0)"
    by (simp_all add: Storage_ok_def ex_storage_def MaxInt32_def)
  show ?thesis
    using ok2 ok0 Storage_Remove_unchecked [OF ok2, of 0] Storage_Remove_unchecked [OF ok0, of 0]
      Storage_Remove_unchecked [OF ok0, of "0xFFFFFFFF"]
    by (simp add: ex_storage_def)
qed

section \<open>Initialising an archetype\<close>

lemma reflect_New_ArrayOf_Inr:
  assumes "reflect_New_ArrayOf h n tp = Inr (h1, buf)"
  shows "h1 = h @ [replicate (nat n * unat (Size tp)) 0]"
    and "buf = \<lparr>elemType = tp, count = nat n, addr = Ptr (length h) 0\<rparr>"
    and "0 \<le> n"
    and "nat n * unat (Size tp) < 2 ^ 64"
proof -
  from assms have n: "\<not> n < 0"
    and big: "\<not> (0 < unat (Size tp) \<and> (2 ^ 64 - 1) div unat (Size tp) < nat n)"
    by (auto simp: reflect_New_ArrayOf_def split: if_splits)
  from assms n big show "h1 = h @ [replicate (nat n * unat (Size tp)) 0]"
    and "buf = \<lparr>elemType = tp, count = nat n, addr = Ptr (length h) 0\<rparr>"
    by (auto simp: reflect_New_ArrayOf_def split: if_splits)
  from n show "0 \<le> n" by simp
  show "nat n * unat (Size tp) < 2 ^ 64"
  proof (cases "0 < unat (Size tp)")
    case False
    then show ?thesis by simp
  next
    case True
    with big have "nat n \<le> (2 ^ 64 - 1) div unat (Size tp)" by simp
    then have "nat n * unat (Size tp) \<le> (2 ^ 64 - 1) div unat (Size tp) * unat (Size tp)"
      by (rule mult_le_mono1)
    also have "\<dots> \<le> 2 ^ 64 - 1" by (rule div_times_less_eq_dividend)
    finally show ?thesis by simp
  qed
qed

lemma reflect_New_ArrayOf_Inl:
  "reflect_New_ArrayOf h n tp = Inl e \<Longrightarrow> \<exists>m. e = Panic m"
  by (auto simp: reflect_New_ArrayOf_def split: if_splits)

lemma Init_loop_ConsE:
  assumes "Init_loop cap h a msk prev i (c # cs) = Inr r"
  obtains buf where
    "prev < uint (ID c)"
    "(word_of_int (Align (Type c)) :: uintptr) \<noteq> 0"
    "unat (ID c) < length (layouts a)" "unat (ID c) < length (indices a)"
    "reflect_New_ArrayOf h cap (Type c) =
       Inr (h @ [replicate (nat cap * unat (Size (Type c))) 0], buf)"
    "buf = \<lparr>elemType = Type c, count = nat cap, addr = Ptr (length h) 0\<rparr>"
    "Init_loop cap (h @ [replicate (nat cap * unat (Size (Type c))) 0])
       (a\<lparr>Ids := (Ids a)[i := ID c],
          buffers := (buffers a)[i := buf],
          layouts := (layouts a)[unat (ID c) :=
             \<lparr>pointer = Ptr (length h) 0,
              itemSize = (Size (Type c) + (word_of_int (Align (Type c)) - 1))
                          div word_of_int (Align (Type c)) * word_of_int (Align (Type c))\<rparr>],
          indices := (indices a)[unat (ID c) := of_nat i]\<rparr>)
       (Mask_Set msk (ID c) True) (uint (ID c)) (Suc i) cs = Inr r"
proof -
  from assms have 1: "prev < uint (ID c)" and 2: "(word_of_int (Align (Type c)) :: uintptr) \<noteq> 0"
    by (auto simp: Let_def split: if_splits)
  from assms 1 2 obtain h1 buf where nb: "reflect_New_ArrayOf h cap (Type c) = Inr (h1, buf)"
    by (auto simp: Let_def split: sum.splits)
  note nbs = reflect_New_ArrayOf_Inr [OF nb]
  from assms 1 2 nb have 3: "unat (ID c) < length (layouts a)" "unat (ID c) < length (indices a)"
    by (auto simp: Let_def split: if_splits)
  from assms 1 2 nb 3 nbs(1,2) show thesis
    by (intro that [of buf]) (simp_all add: Let_def)
qed

lemma Init_loop_Inl:
  "Init_loop cap h a msk prev i cs = Inl e \<Longrightarrow> \<exists>m. e = Panic m"
proof (induction cs arbitrary: h a msk prev i)
  case Nil
  then show ?case by simp
next
  case (Cons c cs)
  show ?case
  proof (cases "reflect_New_ArrayOf h cap (Type c)")
    case (Inl e')
    with Cons.prems reflect_New_ArrayOf_Inl [OF Inl] show ?thesis
      by (auto simp: Let_def split: if_splits)
  next
    case (Inr r)
    with Cons.prems Cons.IH show ?thesis
      by (cases r) (auto simp: Let_def split: if_splits)
  qed
qed

lemma Init_loop_sorted:
  "Init_loop cap h a msk prev i cs = Inr r \<Longrightarrow>
     sorted_wrt (<) (map (\<lambda>c. uint (ID c)) cs) \<and> (\<forall>c\<in>set cs. prev < uint (ID c))"
proof (induction cs arbitrary: h a msk prev i)
  case Nil
  then show ?case by simp
next
  case (Cons c cs)
  from Cons.prems show ?case
  proof (rule Init_loop_ConsE)
    fix buf
    assume lt: "prev < uint (ID c)"
    assume "Init_loop cap (h @ [replicate (nat cap * unat (Size (Type c))) 0])
       (a\<lparr>Ids := (Ids a)[i := ID c],
          buffers := (buffers a)[i := buf],
          layouts := (layouts a)[unat (ID c) :=
             \<lparr>pointer = Ptr (length h) 0,
              itemSize = (Size (Type c) + (word_of_int (Align (Type c)) - 1))
                          div word_of_int (Align (Type c)) * word_of_int (Align (Type c))\<rparr>],
          indices := (indices a)[unat (ID c) := of_nat i]\<rparr>)
       (Mask_Set msk (ID c) True) (uint (ID c)) (Suc i) cs = Inr r"
    from Cons.IH [OF this] lt show ?thesis by auto
  qed
qed

lemma Init_loop_stepE:
  assumes "Init_loop cap h a msk prev i (c # cs) = Inr r"
  obtains a1 where
    "prev < uint (ID c)"
    "(word_of_int (Align (Type c)) :: uintptr) \<noteq> 0"
    "unat (ID c) < length (layouts a)" "unat (ID c) < length (indices a)"
    "0 \<le> cap"
    "Ids a1 = (Ids a)[i := ID c]"
    "buffers a1 = (buffers a)[i := \<lparr>elemType = Type c, count = nat cap, addr = Ptr (length h) 0\<rparr>]"
    "layouts a1 = (layouts a)[unat (ID c) :=
             \<lparr>pointer = Ptr (length h) 0,
              itemSize = (Size (Type c) + (word_of_int (Align (Type c)) - 1))
                          div word_of_int (Align (Type c)) * word_of_int (Align (Type c))\<rparr>]"
    "indices a1 = (indices a)[unat (ID c) := of_nat i]"
    "Init_loop cap (h @ [replicate (nat cap * unat (Size (Type c))) 0]) a1
       (Mask_Set msk (ID c) True) (uint (ID c)) (Suc i) cs = Inr r"
proof -
  from assms show thesis
  proof (rule Init_loop_ConsE)
    fix buf
    assume 1: "prev < uint (ID c)" "(word_of_int (Align (Type c)) :: uintptr) \<noteq> 0"
      "unat (ID c) < length (layouts a)" "unat (ID c) < length (indices a)"
      and nb: "reflect_New_ArrayOf h cap (Type c) =
         Inr (h @ [replicate (nat cap * unat (Size (Type c))) 0], buf)"
      and buf: "buf = \<lparr>elemType = Type c, count = nat cap, addr = Ptr (length h) 0\<rparr>"
      and loop: "Init_loop cap (h @ [replicate (nat cap * unat (Size (Type c))) 0])
       (a\<lparr>Ids := (Ids a)[i := ID c],
          buffers := (buffers a)[i := buf],
          layouts := (layouts a)[unat (ID c) :=
             \<lparr>pointer = Ptr (length h) 0,
              itemSize = (Size (Type c) + (word_of_int (Align (Type c)) - 1))
                          div word_of_int (Align (Type c)) * word_of_int (Align (Type c))\<rparr>],
          indices := (indices a)[unat (ID c) := of_nat i]\<rparr>)
       (Mask_Set msk (ID c) True) (uint (ID c)) (Suc i) cs = Inr r"
    show thesis
      by (rule that [OF 1 reflect_New_ArrayOf_Inr(3) [OF nb] _ _ _ _ loop]) (simp_all add: buf)
  qed
qed

text \<open>What the loop leaves of the layout table: slots of other ids are untouched, and
  every component's slot holds a pointer that is not nil.\<close>

lemma Init_loop_layouts:
  "Init_loop cap h a msk prev i cs = Inr (h', a', msk') \<Longrightarrow>
     length (layouts a') = length (layouts a) \<and>
     (\<forall>k. k \<notin> (\<lambda>c. unat (ID c)) ` set cs \<longrightarrow> layouts a' ! k = layouts a ! k) \<and>
     (\<forall>c\<in>set cs. unat (ID c) < length (layouts a) \<and> pointer (layouts a' ! unat (ID c)) \<noteq> nil)"
proof (induction cs arbitrary: h a msk prev i)
  case Nil
  then show ?case by simp
next
  case (Cons c cs)
  from Cons.prems show ?case
  proof (rule Init_loop_stepE)
    fix a1
    assume lay: "layouts a1 = (layouts a)[unat (ID c) :=
             \<lparr>pointer = Ptr (length h) 0,
              itemSize = (Size (Type c) + (word_of_int (Align (Type c)) - 1))
                          div word_of_int (Align (Type c)) * word_of_int (Align (Type c))\<rparr>]"
      and inb: "unat (ID c) < length (layouts a)"
      and loop: "Init_loop cap (h @ [replicate (nat cap * unat (Size (Type c))) 0]) a1
       (Mask_Set msk (ID c) True) (uint (ID c)) (Suc i) cs = Inr (h', a', msk')"
    note IH = Cons.IH [OF loop]
    from IH lay have len: "length (layouts a') = length (layouts a)" by simp
    have frame: "layouts a' ! k = layouts a ! k" if "k \<notin> (\<lambda>c. unat (ID c)) ` set (c # cs)" for k
      using that IH lay by auto
    have head: "pointer (layouts a' ! unat (ID c)) \<noteq> nil"
    proof (cases "unat (ID c) \<in> (\<lambda>c. unat (ID c)) ` set cs")
      case True
      then obtain c' where "c' \<in> set cs" "unat (ID c') = unat (ID c)" by auto
      with IH show ?thesis by metis
    next
      case False
      with IH have "layouts a' ! unat (ID c) = layouts a1 ! unat (ID c)" by blast
      with lay inb show ?thesis by (simp add: nil_def)
    qed
    from IH lay have tail: "\<forall>c\<in>set cs. unat (ID c) < length (layouts a) \<and> pointer (layouts a' ! unat (ID c)) \<noteq> nil"
      by simp
    from len frame head tail inb show ?thesis by simp
  qed
qed

lemma Init_loop_Ids:
  "Init_loop cap h a msk prev i cs = Inr (h', a', msk') \<Longrightarrow> i + length cs \<le> length (Ids a) \<Longrightarrow>
     Ids a' = take i (Ids a) @ map ID cs @ drop (i + length cs) (Ids a)"
proof (induction cs arbitrary: h a msk prev i)
  case Nil
  then show ?case by simp
next
  case (Cons c cs)
  from Cons.prems(1) show ?case
  proof (rule Init_loop_stepE)
    fix a1
    assume ids: "Ids a1 = (Ids a)[i := ID c]"
      and loop: "Init_loop cap (h @ [replicate (nat cap * unat (Size (Type c))) 0]) a1
       (Mask_Set msk (ID c) True) (uint (ID c)) (Suc i) cs = Inr (h', a', msk')"
    from Cons.prems(2) have i: "i < length (Ids a)" by simp
    from Cons.prems(2) ids have "Suc i + length cs \<le> length (Ids a1)" by simp
    from Cons.IH [OF loop this]
    have "Ids a' = take (Suc i) (Ids a1) @ map ID cs @ drop (Suc i + length cs) (Ids a1)" .
    also have "take (Suc i) (Ids a1) = take i (Ids a) @ [ID c]"
      using i by (simp add: ids take_Suc_conv_app_nth)
    also have "drop (Suc i + length cs) (Ids a1) = drop (i + length (c # cs)) (Ids a)"
      by (simp add: ids)
    finally show ?thesis by simp
  qed
qed

lemma Init_loop_Mask:
  "Init_loop cap h a msk prev i cs = Inr (h', a', msk') \<Longrightarrow>
     length msk' = length msk \<and>
     (\<forall>k. k \<notin> (\<lambda>c. unat (ID c)) ` set cs \<longrightarrow> msk' ! k = msk ! k) \<and>
     (\<forall>c\<in>set cs. unat (ID c) < length msk \<longrightarrow> msk' ! unat (ID c))"
proof (induction cs arbitrary: h a msk prev i)
  case Nil
  then show ?case by simp
next
  case (Cons c cs)
  from Cons.prems show ?case
  proof (rule Init_loop_stepE)
    fix a1
    assume loop: "Init_loop cap (h @ [replicate (nat cap * unat (Size (Type c))) 0]) a1
       (Mask_Set msk (ID c) True) (uint (ID c)) (Suc i) cs = Inr (h', a', msk')"
    note IH = Cons.IH [OF loop]
    from IH have len: "length msk' = length msk" by (simp add: Mask_Set_def)
    have frame: "msk' ! k = msk ! k" if "k \<notin> (\<lambda>c. unat (ID c)) ` set (c # cs)" for k
      using that IH by (auto simp: Mask_Set_def)
    have head: "msk' ! unat (ID c)" if "unat (ID c) < length msk"
    proof (cases "unat (ID c) \<in> (\<lambda>c. unat (ID c)) ` set cs")
      case True
      then obtain c' where "c' \<in> set cs" "unat (ID c') = unat (ID c)" by auto
      with IH that show ?thesis by (metis Mask_Set_def length_list_update)
    next
      case False
      with IH have "msk' ! unat (ID c) = Mask_Set msk (ID c) True ! unat (ID c)" by blast
      with that show ?thesis by (simp add: Mask_Set_def)
    qed
    from IH have tail: "\<forall>c\<in>set cs. unat (ID c) < length msk \<longrightarrow> msk' ! unat (ID c)"
      by (simp add: Mask_Set_def)
    from len frame head tail show ?thesis by simp
  qed
qed

section \<open>Evaluating concrete states\<close>

lemma replicate_numeral: "replicate (numeral k) x = x # replicate (pred_numeral k) x"
  by (simp add: numeral_eq_Suc)

lemma list_update_numeral: "(x # xs)[numeral k := y] = x # xs[pred_numeral k := y]"
  by (simp add: numeral_eq_Suc)

lemmas list_eval = replicate_numeral list_update_numeral

lemmas Init_eval = Init_def Let_def Mask_zero_def Mask_Set_def reflect_New_ArrayOf_def
  storage_Init_def NewReflectStorage_def zeroValue_def zeroStorage_def zeroArchetype_def
  Position_def Tag_def EntityType_def nil_def ex_components_def list_eval

lemma Init_ex:
  "Init 4 EntityType [] zeroArchetype 2 True ex_components = Inr (ex_heap, ex_archetype)"
  by (simp add: Init_eval ex_heap_def ex_archetype_def)

lemma Init_loop_itemSize:
  "Init_loop cap h a msk prev i cs = Inr (h', a', msk') \<Longrightarrow> c \<in> set cs \<Longrightarrow>
     \<exists>b. layouts a' ! unat (ID c) =
       \<lparr>pointer = Ptr b 0,
        itemSize = (Size (Type c) + (word_of_int (Align (Type c)) - 1))
                    div word_of_int (Align (Type c)) * word_of_int (Align (Type c))\<rparr>"
proof (induction cs arbitrary: h a msk prev i)
  case Nil
  then show ?case by simp
next
  case (Cons d cs)
  from Cons.prems(1) show ?case
  proof (rule Init_loop_stepE)
    fix a1
    assume lay: "layouts a1 = (layouts a)[unat (ID d) :=
             \<lparr>pointer = Ptr (length h) 0,
              itemSize = (Size (Type d) + (word_of_int (Align (Type d)) - 1))
                          div word_of_int (Align (Type d)) * word_of_int (Align (Type d))\<rparr>]"
      and inb: "unat (ID d) < length (layouts a)"
      and loop: "Init_loop cap (h @ [replicate (nat cap * unat (Size (Type d))) 0]) a1
       (Mask_Set msk (ID d) True) (uint (ID d)) (Suc i) cs = Inr (h', a', msk')"
    show ?thesis
    proof (cases "c \<in> set cs")
      case True
      from Cons.IH [OF loop True] show ?thesis .
    next
      case False
      with Cons.prems(2) have cd: "c = d" by simp
      from Init_loop_sorted [OF loop] have "\<forall>e\<in>set cs. uint (ID d) < uint (ID e)" by simp
      then have "unat (ID d) \<notin> (\<lambda>c. unat (ID c)) ` set cs"
        by (auto simp: word_unat_eq_iff [symmetric])
      with Init_loop_layouts [OF loop]
      have "layouts a' ! unat (ID d) = layouts a1 ! unat (ID d)" by blast
      with lay inb cd show ?thesis by simp
    qed
  qed
qed

lemma InitE:
  assumes "Init mtb et h a ci fs cs = Inr (h', a')"
  obtains h1 a2 msk ents where
    "Init_loop (if fs then ci else 1) h
       (a\<lparr>Ids := (if cs \<noteq> [] then replicate (length cs) 0 else Ids a),
          buffers := replicate (length cs) zeroValue,
          layouts := replicate mtb \<lparr>pointer = nil, itemSize = 0\<rparr>,
          indices := replicate mtb 0\<rparr>)
       (Mask_zero mtb) (- 1) 0 cs = Inr (h1, a2, msk)"
    "storage_Init h1 et ci fs = Inr (h', ents)"
    "a' = a2\<lparr>entities := ents, Mask := msk, a_capacityIncrement := word_of_int ci,
             a_len := 0, a_cap := word_of_int (if fs then ci else 1)\<rparr>"
  using assms by (auto simp: Init_def Let_def split: sum.splits)

lemma Init_Inl:
  assumes "Init mtb et h a ci fs cs = Inl e"
  shows "\<exists>m. e = Panic m"
proof -
  let ?loop = "Init_loop (if fs then ci else 1) h
       (a\<lparr>Ids := (if cs \<noteq> [] then replicate (length cs) 0 else Ids a),
          buffers := replicate (length cs) zeroValue,
          layouts := replicate mtb \<lparr>pointer = nil, itemSize = 0\<rparr>,
          indices := replicate mtb 0\<rparr>)
       (Mask_zero mtb) (- 1) 0 cs"
  show ?thesis
  proof (cases ?loop)
    case (Inl e')
    with assms have "e = e'" by (simp add: Init_def Let_def)
    with Init_loop_Inl [OF Inl] show ?thesis by simp
  next
    case (Inr r)
    obtain h1 a2 msk where r: "r = (h1, a2, msk)" by (cases r)
    from assms Inr r have "storage_Init h1 et ci fs = Inl e"
      by (auto simp: Init_def Let_def split: sum.splits)
    then show ?thesis
      by (auto simp: storage_Init_def NewReflectStorage_def split: sum.splits
          dest: reflect_New_ArrayOf_Inl)
  qed
qed

lemma Init_layouts:
  assumes "Init mtb et h a ci fs cs = Inr (h', a')"
  shows "length (layouts a') = mtb"
    and "k < mtb \<Longrightarrow> pointer (layouts a' ! k) \<noteq> nil \<longleftrightarrow> k \<in> (\<lambda>c. unat (ID c)) ` set cs"
    and "c \<in> set cs \<Longrightarrow> unat (ID c) < mtb"
    and "c \<in> set cs \<Longrightarrow> \<exists>b. layouts a' ! unat (ID c) =
       \<lparr>pointer = Ptr b 0,
        itemSize = (Size (Type c) + (word_of_int (Align (Type c)) - 1))
                    div word_of_int (Align (Type c)) * word_of_int (Align (Type c))\<rparr>"
proof -
  from assms obtain h1 a2 msk ents where
    loop: "Init_loop (if fs then ci else 1) h
       (a\<lparr>Ids := (if cs \<noteq> [] then replicate (length cs) 0 else Ids a),
          buffers := replicate (length cs) zeroValue,
          layouts := replicate mtb \<lparr>pointer = nil, itemSize = 0\<rparr>,
          indices := replicate mtb 0\<rparr>)
       (Mask_zero mtb) (- 1) 0 cs = Inr (h1, a2, msk)"
    and a': "a' = a2\<lparr>entities := ents, Mask := msk, a_capacityIncrement := word_of_int ci,
             a_len := 0, a_cap := word_of_int (if fs then ci else 1)\<rparr>"
    by (rule InitE)
  note L = Init_loop_layouts [OF loop]
  from L a' show len: "length (layouts a') = mtb" by simp
  from L a' show "unat (ID c) < mtb" if "c \<in> set cs" using that by simp
  show "pointer (layouts a' ! k) \<noteq> nil \<longleftrightarrow> k \<in> (\<lambda>c. unat (ID c)) ` set cs" if k: "k < mtb"
  proof (cases "k \<in> (\<lambda>c. unat (ID c)) ` set cs")
    case True
    then obtain c where "c \<in> set cs" "k = unat (ID c)" by auto
    with L a' True show ?thesis by simp
  next
    case False
    with L have "layouts a2 ! k = replicate mtb \<lparr>pointer = nil, itemSize = 0\<rparr> ! k" by simp
    with k a' False show ?thesis by simp
  qed
  from Init_loop_itemSize [OF loop] a'
  show "\<exists>b. layouts a' ! unat (ID c) =
       \<lparr>pointer = Ptr b 0,
        itemSize = (Size (Type c) + (word_of_int (Align (Type c)) - 1))
                    div word_of_int (Align (Type c)) * word_of_int (Align (Type c))\<rparr>"
    if "c \<in> set cs" using that by simp
qed

lemma Init_Ids:
  assumes "Init mtb et h a ci fs cs = Inr (h', a')"
  shows "Ids a' = (if cs \<noteq> [] then map ID cs else Ids a)"
proof -
  from assms obtain h1 a2 msk ents where
    loop: "Init_loop (if fs then ci else 1) h
       (a\<lparr>Ids := (if cs \<noteq> [] then replicate (length cs) 0 else Ids a),
          buffers := replicate (length cs) zeroValue,
          layouts := replicate mtb \<lparr>pointer = nil, itemSize = 0\<rparr>,
          indices := replicate mtb 0\<rparr>)
       (Mask_zero mtb) (- 1) 0 cs = Inr (h1, a2, msk)"
    and a': "a' = a2\<lparr>entities := ents, Mask := msk, a_capacityIncrement := word_of_int ci,
             a_len := 0, a_cap := word_of_int (if fs then ci else 1)\<rparr>"
    by (rule InitE)
  show ?thesis
  proof (cases "cs = []")
    case True
    with loop a' show ?thesis by auto
  next
    case False
    with Init_loop_Ids [OF loop] a' show ?thesis by simp
  qed
qed

lemma Init_Mask:
  assumes "Init mtb et h a ci fs cs = Inr (h', a')" "c \<in> set cs"
  shows "Mask_Get (Mask a') (ID c)"
proof -
  from assms(1) obtain h1 a2 msk ents where
    loop: "Init_loop (if fs then ci else 1) h
       (a\<lparr>Ids := (if cs \<noteq> [] then replicate (length cs) 0 else Ids a),
          buffers := replicate (length cs) zeroValue,
          layouts := replicate mtb \<lparr>pointer = nil, itemSize = 0\<rparr>,
          indices := replicate mtb 0\<rparr>)
       (Mask_zero mtb) (- 1) 0 cs = Inr (h1, a2, msk)"
    and a': "a' = a2\<lparr>entities := ents, Mask := msk, a_capacityIncrement := word_of_int ci,
             a_len := 0, a_cap := word_of_int (if fs then ci else 1)\<rparr>"
    by (rule InitE)
  from Init_layouts(3) [OF assms] have "unat (ID c) < mtb" .
  with Init_loop_Mask [OF loop] assms(2) a' show ?thesis
    by (simp add: Mask_Get_def Mask_zero_def)
qed

section \<open>The access table after Init\<close>

lemma ID_in_Ids_iff:
  fixes i :: ID
  shows "unat i \<in> (\<lambda>c. unat (ID c)) ` set cs \<longleftrightarrow> i \<in> set (map ID cs)"
  by (auto simp: word_unat_eq_iff [symmetric])

lemma Init_getStorage:
  assumes "Init mtb et h a ci fs cs = Inr (h', a')" "cs = [] \<longrightarrow> Ids a = []" "unat i < mtb"
  shows "getStorage a' i = Inr (layouts a' ! unat i)"
    and "pointer (layouts a' ! unat i) \<noteq> nil \<longleftrightarrow> i \<in> set (Ids a')"
proof -
  from Init_layouts(1) [OF assms(1)] assms(3)
  show "getStorage a' i = Inr (layouts a' ! unat i)" by (simp add: getStorage_def)
  from assms(2) Init_Ids [OF assms(1)] have "set (Ids a') = set (map ID cs)" by auto
  with Init_layouts(2) [OF assms(1,3)] show "pointer (layouts a' ! unat i) \<noteq> nil \<longleftrightarrow> i \<in> set (Ids a')"
    by (simp only: ID_in_Ids_iff)
qed

text \<open>
  C1 (as stated, refuted). The example archetype holds the zero-sized \<open>Tag\<close> under id 3,
  and its access-table entry for id 3 has a pointer that is not nil: the size of the
  component plays no part.
\<close>

theorem access_pointer_size_counterexample:
  "Init 4 EntityType [] zeroArchetype 2 True ex_components = Inr (ex_heap, ex_archetype) \<and>
   getStorage ex_archetype 3 = Inr \<lparr>pointer = Ptr 1 0, itemSize = 0\<rparr> \<and>
   Ptr 1 0 \<noteq> nil \<and> 3 \<in> set (Ids ex_archetype) \<and> \<not> 0 < Size Tag"
  by (simp add: Init_ex) (simp add: getStorage_def ex_archetype_def nil_def Tag_def)

text \<open>
  C1 (amended). For an archetype constructed by \<^verbatim>\<open>Init\<close> and every component id below
  \<^verbatim>\<open>MaskTotalBits\<close>, the access-table entry of the id has a pointer that is not nil if
  and only if the id is one of the archetype's component ids, whatever the size of the
  component; for an id not in the archetype the pointer is nil.
\<close>

theorem access_pointer_iff_Ids:
  assumes "Init mtb et h a ci fs cs = Inr (h', a')"
    and "cs = [] \<longrightarrow> Ids a = []"
    and "unat i < mtb"
  shows "\<exists>l. getStorage a' i = Inr l \<and> (pointer l \<noteq> nil \<longleftrightarrow> i \<in> set (Ids a'))"
  using Init_getStorage [OF assms] by simp

theorem access_pointer_iff_Ids_witness:
  "(\<exists>l. getStorage ex_archetype 3 = Inr l \<and> (pointer l \<noteq> nil \<longleftrightarrow> 3 \<in> set (Ids ex_archetype))) \<and>
   (\<exists>l. getStorage ex_archetype 2 = Inr l \<and> (pointer l \<noteq> nil \<longleftrightarrow> 2 \<in> set (Ids ex_archetype)))"
proof -
  have ids: "ex_components = [] \<longrightarrow> Ids zeroArchetype = []"
    by (simp add: zeroArchetype_def)
  have "unat (3 :: ID) < 4" "unat (2 :: ID) < 4" by simp_all
  from access_pointer_iff_Ids [OF Init_ex ids this(1)] access_pointer_iff_Ids [OF Init_ex ids this(2)]
  show ?thesis by simp
qed

text \<open>
  C8. For an archetype constructed by \<^verbatim>\<open>Init\<close> and every component id below
  \<^verbatim>\<open>MaskTotalBits\<close>, \<^verbatim>\<open>HasComponent\<close> is true exactly for the ids in the archetype's
  id list, also for a component of size zero: \<^verbatim>\<open>Init\<close> stores the address of the
  component's buffer, never nil, in the layout of every component it is given.
\<close>

theorem HasComponent_iff_Ids:
  assumes "Init mtb et h a ci fs cs = Inr (h', a')"
    and "cs = [] \<longrightarrow> Ids a = []"
    and "unat i < mtb"
  shows "HasComponent a' i = Inr (i \<in> set (Ids a')) \<and>
         (\<forall>c\<in>set cs. pointer (layouts a' ! unat (ID c)) \<noteq> nil)"
proof
  from Init_getStorage [OF assms] show "HasComponent a' i = Inr (i \<in> set (Ids a'))"
    by (simp add: HasComponent_def)
  show "\<forall>c\<in>set cs. pointer (layouts a' ! unat (ID c)) \<noteq> nil"
  proof
    fix c assume c: "c \<in> set cs"
    from Init_layouts(4) [OF assms(1) c] show "pointer (layouts a' ! unat (ID c)) \<noteq> nil"
      by (auto simp: nil_def)
  qed
qed

theorem HasComponent_iff_Ids_witness:
  "HasComponent ex_archetype 3 = Inr True \<and> HasComponent ex_archetype 1 = Inr True \<and>
   HasComponent ex_archetype 0 = Inr False \<and> Size Tag = 0 \<and>
   pointer (layouts ex_archetype ! 3) \<noteq> nil"
proof -
  have ids: "ex_components = [] \<longrightarrow> Ids zeroArchetype = []"
    by (simp add: zeroArchetype_def)
  have "unat (3 :: ID) < 4" "unat (1 :: ID) < 4" "unat (0 :: ID) < 4" by simp_all
  from HasComponent_iff_Ids [OF Init_ex ids this(1)] HasComponent_iff_Ids [OF Init_ex ids this(2)]
    HasComponent_iff_Ids [OF Init_ex ids this(3)]
  show ?thesis by (simp add: ex_archetype_def ex_components_def Tag_def)
qed

section \<open>The item size of a column\<close>

lemma round_up_nat:
  fixes s a :: nat
  assumes "0 < a"
  shows "a dvd (s + (a - 1)) div a * a" "s \<le> (s + (a - 1)) div a * a"
    "(s + (a - 1)) div a * a < s + a"
proof -
  define t where "t = s + (a - 1)"
  have eq: "t div a * a = t - t mod a" by (simp add: minus_mod_eq_div_mult)
  have "t mod a < a" using assms by simp
  then have m: "t mod a \<le> a - 1" by linarith
  have ts: "t = s + (a - 1)" by (simp add: t_def)
  have A: "s \<le> t div a * a" using eq m ts by linarith
  have B: "t div a * a < s + a" using eq ts assms by linarith
  show "a dvd (s + (a - 1)) div a * a" by simp
  from A show "s \<le> (s + (a - 1)) div a * a" unfolding t_def .
  from B show "(s + (a - 1)) div a * a < s + a" unfolding t_def .
qed

lemma unat_round_up:
  fixes s al :: uintptr
  assumes "al \<noteq> 0" "unat s + (unat al - 1) < 2 ^ 64"
  shows "unat ((s + (al - 1)) div al * al) = (unat s + (unat al - 1)) div unat al * unat al"
proof -
  define t where "t = unat s + (unat al - 1)"
  have al1: "unat (al - 1) = unat al - 1" using assms(1) by (rule unat_minus_one)
  have "unat s + unat (al - 1) < 2 ^ LENGTH(64)" using assms(2) by (simp only: al1) simp
  then have sum: "unat (s + (al - 1)) = t"
    by (simp only: unat_add_lem [THEN iffD1] al1 t_def)
  have dv: "unat ((s + (al - 1)) div al) = t div unat al"
    by (simp only: unat_div sum)
  have "t div unat al * unat al \<le> t" by simp
  moreover have "t < 2 ^ LENGTH(64)" using assms(2) by (simp add: t_def)
  ultimately have "unat ((s + (al - 1)) div al) * unat al < 2 ^ LENGTH(64)"
    by (simp only: dv)
  then have "unat ((s + (al - 1)) div al * al) = t div unat al * unat al"
    by (simp only: unat_mult_lem [THEN iffD1] dv)
  then show ?thesis by (simp only: t_def)
qed

text \<open>
  C9. For a component of declared size \<open>s\<close> and alignment \<open>a\<close>, the item size that
  \<^verbatim>\<open>Init\<close> stores in the layout is \<^verbatim>\<open>(s + (a - 1)) / a * a\<close> in \<^verbatim>\<open>uintptr\<close>
  arithmetic; it is the stride of \<^verbatim>\<open>Get\<close> and the byte count that \<^verbatim>\<open>Set\<close> copies.
  When \<open>s + a - 1\<close> does not overflow, this is \<open>s\<close> rounded up to the next multiple of
  \<open>a\<close>: the multiple of \<open>a\<close> in the range from \<open>s\<close> up to \<open>s + a - 1\<close>.
\<close>

lemma Init_loop_align:
  "Init_loop cap h a msk prev i cs = Inr r \<Longrightarrow> c \<in> set cs \<Longrightarrow>
     (word_of_int (Align (Type c)) :: uintptr) \<noteq> 0"
proof (induction cs arbitrary: h a msk prev i)
  case Nil
  then show ?case by simp
next
  case (Cons d cs)
  from Cons.prems(1) show ?case
    by (rule Init_loop_stepE) (use Cons.IH Cons.prems(2) in auto)
qed

theorem Init_itemSize_rounded_up:
  assumes "Init mtb et h a ci fs cs = Inr (h', a')"
    and "c \<in> set cs"
    and "al = (word_of_int (Align (Type c)) :: uintptr)"
    and "sz = (Size (Type c) + (al - 1)) div al * al"
  shows "(\<exists>b. getStorage a' (ID c) = Inr \<lparr>pointer = Ptr b 0, itemSize = sz\<rparr> \<and>
           (\<forall>row. Get a' row (ID c) = Inr (unsafe_Add (Ptr b 0) (sz * row))) \<and>
           (\<forall>g row src. sz \<noteq> 0 \<longrightarrow>
              Set g a' row (ID c) src =
                (case copy g src (unsafe_Add (Ptr b 0) (sz * row)) sz of
                   Inl e \<Rightarrow> Inl e
                 | Inr g' \<Rightarrow> Inr (g', unsafe_Add (Ptr b 0) (sz * row))))) \<and>
         al \<noteq> 0 \<and>
         (unat (Size (Type c)) + (unat al - 1) < 2 ^ 64 \<longrightarrow>
           unat sz = (unat (Size (Type c)) + (unat al - 1)) div unat al * unat al \<and>
           unat al dvd unat sz \<and> unat (Size (Type c)) \<le> unat sz \<and>
           unat sz < unat (Size (Type c)) + unat al)"
proof (intro conjI impI)
  from Init_layouts(4) [OF assms(1,2)] obtain b where
    lay: "layouts a' ! unat (ID c) = \<lparr>pointer = Ptr b 0, itemSize = sz\<rparr>"
    by (auto simp: assms(3,4))
  from Init_layouts(1,3) [OF assms(1)] assms(2) have inb: "unat (ID c) < length (layouts a')"
    by simp
  then have gs: "getStorage a' (ID c) = Inr \<lparr>pointer = Ptr b 0, itemSize = sz\<rparr>"
    by (simp add: getStorage_def lay)
  then show "\<exists>b. getStorage a' (ID c) = Inr \<lparr>pointer = Ptr b 0, itemSize = sz\<rparr> \<and>
           (\<forall>row. Get a' row (ID c) = Inr (unsafe_Add (Ptr b 0) (sz * row))) \<and>
           (\<forall>g row src. sz \<noteq> 0 \<longrightarrow>
              Set g a' row (ID c) src =
                (case copy g src (unsafe_Add (Ptr b 0) (sz * row)) sz of
                   Inl e \<Rightarrow> Inl e
                 | Inr g' \<Rightarrow> Inr (g', unsafe_Add (Ptr b 0) (sz * row))))"
    by (intro exI [of _ b])
      (simp add: Get_def Set_def layout_Get_def nil_def Let_def split: sum.splits)
  from assms(1) obtain h1 a2 msk where
    loop: "Init_loop (if fs then ci else 1) h
       (a\<lparr>Ids := (if cs \<noteq> [] then replicate (length cs) 0 else Ids a),
          buffers := replicate (length cs) zeroValue,
          layouts := replicate mtb \<lparr>pointer = nil, itemSize = 0\<rparr>,
          indices := replicate mtb 0\<rparr>)
       (Mask_zero mtb) (- 1) 0 cs = Inr (h1, a2, msk)"
    by (rule InitE)
  show nz: "al \<noteq> 0"
    using Init_loop_align [OF loop assms(2)] by (simp add: assms(3))
  assume "unat (Size (Type c)) + (unat al - 1) < 2 ^ 64"
  from unat_round_up [OF nz this] have eq:
    "unat sz = (unat (Size (Type c)) + (unat al - 1)) div unat al * unat al"
    by (simp add: assms(4))
  from nz have "0 < unat al" by (simp add: unat_gt_0)
  note R = round_up_nat [OF this, of "unat (Size (Type c))"]
  show "unat sz = (unat (Size (Type c)) + (unat al - 1)) div unat al * unat al"
    by (rule eq)
  show "unat al dvd unat sz" unfolding eq by (rule R)
  show "unat (Size (Type c)) \<le> unat sz" unfolding eq by (rule R)
  show "unat sz < unat (Size (Type c)) + unat al" unfolding eq by (rule R)
qed

theorem Init_itemSize_rounded_up_witness:
  "\<lparr>ID = 1, Type = Position\<rparr> \<in> set ex_components \<and>
   (\<exists>b. getStorage ex_archetype 1 = Inr \<lparr>pointer = Ptr b 0, itemSize = 8\<rparr>) \<and>
   unat (8 :: uintptr) = (8 + (4 - 1)) div 4 * 4"
proof -
  have c: "\<lparr>ID = 1, Type = Position\<rparr> \<in> set ex_components"
    by (simp add: ex_components_def)
  from Init_itemSize_rounded_up [OF Init_ex c refl refl] c
  show ?thesis by (simp add: Position_def) blast
qed

section \<open>Contract violations\<close>

lemma Init_loop_sorted_message:
  "Init_loop cap h a msk prev i cs = Inl e \<Longrightarrow>
   0 \<le> cap \<Longrightarrow>
   \<forall>c\<in>set cs. (word_of_int (Align (Type c)) :: uintptr) \<noteq> 0 \<and>
              unat (ID c) < length (layouts a) \<and> unat (ID c) < length (indices a) \<and>
              \<not> (0 < unat (Size (Type c)) \<and> (2 ^ 64 - 1) div unat (Size (Type c)) < nat cap) \<Longrightarrow>
   e = Panic ''component arguments must be sorted by ID''"
proof (induction cs arbitrary: h a msk prev i)
  case Nil
  then show ?case by simp
next
  case (Cons c cs)
  show ?case
  proof (cases "uint (ID c) \<le> prev")
    case True
    with Cons.prems(1) show ?thesis by simp
  next
    case False
    let ?a1 = "a\<lparr>Ids := (Ids a)[i := ID c],
          buffers := (buffers a)[i := \<lparr>elemType = Type c, count = nat cap, addr = Ptr (length h) 0\<rparr>],
          layouts := (layouts a)[unat (ID c) :=
             \<lparr>pointer = Ptr (length h) 0,
              itemSize = (Size (Type c) + (word_of_int (Align (Type c)) - 1))
                          div word_of_int (Align (Type c)) * word_of_int (Align (Type c))\<rparr>],
          indices := (indices a)[unat (ID c) := of_nat i]\<rparr>"
    from Cons.prems(2,3)
    have nb: "reflect_New_ArrayOf h cap (Type c) =
        Inr (h @ [replicate (nat cap * unat (Size (Type c))) 0],
             \<lparr>elemType = Type c, count = nat cap, addr = Ptr (length h) 0\<rparr>)"
      by (auto simp: reflect_New_ArrayOf_def)
    from Cons.prems(3) False Cons.prems(1)
    have loop: "Init_loop cap (h @ [replicate (nat cap * unat (Size (Type c))) 0]) ?a1
       (Mask_Set msk (ID c) True) (uint (ID c)) (Suc i) cs = Inl e"
      by (simp add: Let_def nb)
    from Cons.prems(3) have
      "\<forall>c\<in>set cs. (word_of_int (Align (Type c)) :: uintptr) \<noteq> 0 \<and>
              unat (ID c) < length (layouts ?a1) \<and> unat (ID c) < length (indices ?a1) \<and>
              \<not> (0 < unat (Size (Type c)) \<and> (2 ^ 64 - 1) div unat (Size (Type c)) < nat cap)"
      by simp
    from Cons.IH [OF loop Cons.prems(2) this] show ?thesis .
  qed
qed

text \<open>
  C6. \<^verbatim>\<open>Init\<close> on a component list that is not strictly ascending by id does not
  return: it panics. When no other panic of the loop comes first (every alignment is not
  zero, every id is below \<^verbatim>\<open>MaskTotalBits\<close> and the buffers can be allocated), the panic
  is the one of the sortedness check. \<^verbatim>\<open>Add\<close> with a number of components other than the
  number of the archetype's ids panics before it does anything else. Both are panics, not
  error values that a caller gets back.
\<close>

theorem contract_violations_panic:
  "(\<not> sorted_wrt (<) (map (\<lambda>c. unat (ID c)) cs) \<longrightarrow>
      (\<exists>m. Init mtb et h a ci fs cs = Inl (Panic m)) \<and>
      (0 \<le> (if fs then ci else 1) \<and>
       (\<forall>c\<in>set cs. (word_of_int (Align (Type c)) :: uintptr) \<noteq> 0 \<and> unat (ID c) < mtb \<and>
          \<not> (0 < unat (Size (Type c)) \<and>
             (2 ^ 64 - 1) div unat (Size (Type c)) < nat (if fs then ci else 1))) \<longrightarrow>
       Init mtb et h a ci fs cs = Inl (Panic ''component arguments must be sorted by ID''))) \<and>
   (length comps \<noteq> length (Ids b) \<longrightarrow>
      Add g b entity comps = Inl (Panic ''Invalid number of components''))"
proof (intro conjI impI)
  show "Add g b entity comps = Inl (Panic ''Invalid number of components'')"
    if "length comps \<noteq> length (Ids b)"
    using that by (simp add: Add_def)
next
  let ?loop = "Init_loop (if fs then ci else 1) h
       (a\<lparr>Ids := (if cs \<noteq> [] then replicate (length cs) 0 else Ids a),
          buffers := replicate (length cs) zeroValue,
          layouts := replicate mtb \<lparr>pointer = nil, itemSize = 0\<rparr>,
          indices := replicate mtb 0\<rparr>)
       (Mask_zero mtb) (- 1) 0 cs"
  assume ns: "\<not> sorted_wrt (<) (map (\<lambda>c. unat (ID c)) cs)"
  have map_eq: "sorted_wrt (<) (map (\<lambda>c. uint (ID c)) cs) = sorted_wrt (<) (map (\<lambda>c. unat (ID c)) cs)"
    by (simp add: sorted_wrt_map word_less_nat_alt [symmetric] word_less_def)
  have "\<exists>e. ?loop = Inl e"
  proof (cases ?loop)
    case (Inr r)
    from Init_loop_sorted [OF Inr] ns map_eq show ?thesis by simp
  qed simp
  then obtain e where e: "?loop = Inl e" ..
  then have I: "Init mtb et h a ci fs cs = Inl e" by (simp add: Init_def Let_def)
  from Init_Inl [OF I] I show "\<exists>m. Init mtb et h a ci fs cs = Inl (Panic m)" by auto
  assume ok: "0 \<le> (if fs then ci else 1) \<and>
       (\<forall>c\<in>set cs. (word_of_int (Align (Type c)) :: uintptr) \<noteq> 0 \<and> unat (ID c) < mtb \<and>
          \<not> (0 < unat (Size (Type c)) \<and>
             (2 ^ 64 - 1) div unat (Size (Type c)) < nat (if fs then ci else 1)))"
  then have "e = Panic ''component arguments must be sorted by ID''"
    by (intro Init_loop_sorted_message [OF e]) simp_all
  with I show "Init mtb et h a ci fs cs = Inl (Panic ''component arguments must be sorted by ID'')"
    by simp
qed

theorem contract_violations_panic_witness:
  "\<not> sorted_wrt (<) (map (\<lambda>c. unat (ID c)) (rev ex_components)) \<and>
   Init 4 EntityType [] zeroArchetype 2 True (rev ex_components) =
     Inl (Panic ''component arguments must be sorted by ID'') \<and>
   Add ex_heap ex_archetype [0, 0, 0, 0, 0, 0, 0, 0] [\<lparr>comp_ID = 1, Comp = Ptr 0 0\<rparr>] =
     Inl (Panic ''Invalid number of components'')"
  using contract_violations_panic [of "rev ex_components" 4 EntityType "[]" zeroArchetype 2 True
      "[\<lparr>comp_ID = 1, Comp = Ptr 0 0\<rparr>]" ex_archetype ex_heap "[0, 0, 0, 0, 0, 0, 0, 0]"]
  by (simp add: ex_components_def ex_archetype_def Position_def Tag_def)

section \<open>Growing the columns\<close>

lemma extend_loop_stepE:
  assumes "extend_loop h a (i # ids) = Inr r"
    and "itemSize (layouts a ! unat i) \<noteq> 0"
  obtains h2 where
    "unat i < length (layouts a)" "unat i < length (indices a)"
    "unat (indices a ! unat i) < length (buffers a)"
    "addr (buffers a ! unat (indices a ! unat i)) \<noteq> nil"
    "reflect_New_ArrayOf h (uint (a_cap a)) (elemType (buffers a ! unat (indices a ! unat i))) =
       Inr (h @ [replicate (unat (a_cap a) *
                   unat (Size (elemType (buffers a ! unat (indices a ! unat i))))) 0],
            \<lparr>elemType = elemType (buffers a ! unat (indices a ! unat i)),
              count = unat (a_cap a), addr = Ptr (length h) 0\<rparr>)"
    "reflect_Copy
       (h @ [replicate (unat (a_cap a) *
                   unat (Size (elemType (buffers a ! unat (indices a ! unat i))))) 0])
       \<lparr>elemType = elemType (buffers a ! unat (indices a ! unat i)),
         count = unat (a_cap a), addr = Ptr (length h) 0\<rparr>
       (buffers a ! unat (indices a ! unat i)) = Inr h2"
    "extend_loop h2
       (a\<lparr>buffers := (buffers a)[unat (indices a ! unat i) :=
            \<lparr>elemType = elemType (buffers a ! unat (indices a ! unat i)),
              count = unat (a_cap a), addr = Ptr (length h) 0\<rparr>],
          layouts := (layouts a)[unat i := (layouts a ! unat i)\<lparr>pointer := Ptr (length h) 0\<rparr>]\<rparr>)
       ids = Inr r"
proof -
  from assms(1) have 1: "unat i < length (layouts a)"
    by (auto simp: getStorage_def split: if_splits)
  then have gs: "getStorage a i = Inr (layouts a ! unat i)" by (simp add: getStorage_def)
  from assms gs have 2: "unat i < length (indices a)"
    by (auto split: if_splits)
  from assms gs 2 have 3: "unat (indices a ! unat i) < length (buffers a)"
    by (auto simp: Let_def split: if_splits)
  from assms gs 2 3 have 4: "addr (buffers a ! unat (indices a ! unat i)) \<noteq> nil"
    by (auto simp: Let_def split: if_splits)
  let ?old = "buffers a ! unat (indices a ! unat i)"
  from assms gs 2 3 4 obtain h1 new where
    nb: "reflect_New_ArrayOf h (uint (a_cap a)) (elemType ?old) = Inr (h1, new)"
    by (auto simp: Let_def split: sum.splits)
  note nbs = reflect_New_ArrayOf_Inr(1,2) [OF nb]
  from assms gs 2 3 4 nb obtain h2 where cp: "reflect_Copy h1 new ?old = Inr h2"
    by (auto simp: Let_def split: sum.splits)
  from assms gs 2 3 4 nb cp have loop: "extend_loop h2
       (a\<lparr>buffers := (buffers a)[unat (indices a ! unat i) := new],
          layouts := (layouts a)[unat i := (layouts a ! unat i)\<lparr>pointer := addr new\<rparr>]\<rparr>)
       ids = Inr r"
    by (simp add: Let_def)
  show thesis
    using 1 2 3 4 nb cp loop unfolding nbs by (intro that [of h2]) simp_all
qed

lemma extend_loop_skip:
  assumes "unat i < length (layouts a)" "itemSize (layouts a ! unat i) = 0"
  shows "extend_loop h a (i # ids) = extend_loop h a ids"
  using assms by (simp add: getStorage_def)

lemma extend_loop_inb:
  "extend_loop h a (i # ids) = Inr r \<Longrightarrow> unat i < length (layouts a)"
  by (auto simp: getStorage_def split: if_splits)

text \<open>A column of item size zero keeps its layout entry through \<^verbatim>\<open>extend\<close>.\<close>

lemma extend_loop_zero_layout:
  "extend_loop h a ids = Inr (h', a') \<Longrightarrow>
     length (layouts a') = length (layouts a) \<and>
     (\<forall>k. itemSize (layouts a ! k) = 0 \<longrightarrow> layouts a' ! k = layouts a ! k)"
proof (induction ids arbitrary: h a)
  case Nil
  then show ?case by simp
next
  case (Cons i ids)
  note inb = extend_loop_inb [OF Cons.prems]
  show ?case
  proof (cases "itemSize (layouts a ! unat i) = 0")
    case True
    from Cons.prems have "extend_loop h a ids = Inr (h', a')"
      unfolding extend_loop_skip [OF inb True] .
    from Cons.IH [OF this] show ?thesis .
  next
    case False
    from Cons.prems False show ?thesis
    proof (rule extend_loop_stepE)
      fix h2
      assume loop: "extend_loop h2
       (a\<lparr>buffers := (buffers a)[unat (indices a ! unat i) :=
            \<lparr>elemType = elemType (buffers a ! unat (indices a ! unat i)),
              count = unat (a_cap a), addr = Ptr (length h) 0\<rparr>],
          layouts := (layouts a)[unat i := (layouts a ! unat i)\<lparr>pointer := Ptr (length h) 0\<rparr>]\<rparr>)
       ids = Inr (h', a')"
      note IH = Cons.IH [OF loop]
      have "layouts a' ! k = layouts a ! k" if z: "itemSize (layouts a ! k) = 0" for k
      proof -
        from z False have ne: "unat i \<noteq> k" by auto
        then have "(layouts a)[unat i := (layouts a ! unat i)\<lparr>pointer := Ptr (length h) 0\<rparr>] ! k
            = layouts a ! k" by simp
        with IH z show ?thesis by simp
      qed
      with IH show ?thesis by simp
    qed
  qed
qed

lemma extend_zero_layout:
  assumes "extend h a = Inr (h', a')" "itemSize (layouts a ! k) = 0"
  shows "layouts a' ! k = layouts a ! k" "length (layouts a') = length (layouts a)"
proof -
  show "layouts a' ! k = layouts a ! k"
  proof (cases "a_len a < a_cap a")
    case True
    with assms(1) show ?thesis by (simp add: extend_def)
  next
    case False
    with assms(1) have "extend_loop h
        (a\<lparr>a_cap := a_capacityIncrement a *
                     ((a_cap a + a_capacityIncrement a) div a_capacityIncrement a)\<rparr>)
        (Ids a) = Inr (h', a')"
      by (simp add: extend_def Let_def split: if_splits)
    from extend_loop_zero_layout [OF this] assms(2) show ?thesis by simp
  qed
  show "length (layouts a') = length (layouts a)"
  proof (cases "a_len a < a_cap a")
    case True
    with assms(1) show ?thesis by (simp add: extend_def)
  next
    case False
    with assms(1) have "extend_loop h
        (a\<lparr>a_cap := a_capacityIncrement a *
                     ((a_cap a + a_capacityIncrement a) div a_capacityIncrement a)\<rparr>)
        (Ids a) = Inr (h', a')"
      by (simp add: extend_def Let_def split: if_splits)
    from extend_loop_zero_layout [OF this] show ?thesis by simp
  qed
qed

section \<open>Zero-sized components\<close>

lemma zero_size_round_up:
  fixes al :: uintptr
  assumes "al \<noteq> 0"
  shows "(0 + (al - 1)) div al * al = 0"
proof -
  have "unat (al - 1) = unat al - 1" using assms by (rule unat_minus_one)
  moreover have "0 < unat al" using assms by (simp add: unat_gt_0)
  ultimately have "unat ((al - 1) div al) = 0" by (simp add: unat_div)
  then have "(al - 1) div al = 0" by (simp add: unat_eq_zero)
  then show ?thesis by simp
qed

lemma Init_itemSize_zero:
  assumes "Init mtb et h a ci fs cs = Inr (h', a')" "c \<in> set cs" "Size (Type c) = 0"
  shows "\<exists>b. getStorage a' (ID c) = Inr \<lparr>pointer = Ptr b 0, itemSize = 0\<rparr>"
proof -
  from assms(1) obtain h1 a2 msk where
    loop: "Init_loop (if fs then ci else 1) h
       (a\<lparr>Ids := (if cs \<noteq> [] then replicate (length cs) 0 else Ids a),
          buffers := replicate (length cs) zeroValue,
          layouts := replicate mtb \<lparr>pointer = nil, itemSize = 0\<rparr>,
          indices := replicate mtb 0\<rparr>)
       (Mask_zero mtb) (- 1) 0 cs = Inr (h1, a2, msk)"
    by (rule InitE)
  from Init_loop_align [OF loop assms(2)]
  have "(0 + (word_of_int (Align (Type c)) - 1)) div word_of_int (Align (Type c))
          * word_of_int (Align (Type c)) = (0 :: uintptr)"
    by (rule zero_size_round_up)
  with Init_layouts(4) [OF assms(1,2)] assms(3) obtain b where
    "layouts a' ! unat (ID c) = \<lparr>pointer = Ptr b 0, itemSize = 0\<rparr>" by auto
  moreover from Init_layouts(1,3) [OF assms(1)] assms(2)
  have "unat (ID c) < length (layouts a')" by simp
  ultimately show ?thesis by (simp add: getStorage_def)
qed

text \<open>
  C2 (as stated, refuted). In the example archetype the zero-sized \<open>Tag\<close> has id 3; its
  mask bit is set, but \<^verbatim>\<open>Get\<close> returns the address of its buffer, not nil. A
  reflection storage created for \<open>Tag\<close> has a base pointer that is not nil either.
\<close>

theorem zero_sized_get_counterexample:
  "Init 4 EntityType [] zeroArchetype 2 True ex_components = Inr (ex_heap, ex_archetype) \<and>
   Size Tag = 0 \<and> 3 \<in> set (Ids ex_archetype) \<and> Mask_Get (Mask ex_archetype) 3 \<and>
   Get ex_archetype 0 3 = Inr (Ptr 1 0) \<and> Ptr 1 0 \<noteq> nil \<and>
   NewReflectStorage [] Tag 2 =
     Inr ([[]], \<lparr>buffer = \<lparr>elemType = Tag, count = 2, addr = Ptr 0 0\<rparr>,
                  bufferAddress = Ptr 0 0, typeOf = Tag, s_itemSize = 0, s_len = 0,
                  s_cap = 2, s_capacityIncrement = 2\<rparr>)"
  by (simp add: Init_ex)
    (simp add: Get_def getStorage_def layout_Get_def ex_archetype_def nil_def Tag_def
      Mask_Get_def NewReflectStorage_def reflect_New_ArrayOf_def)

text \<open>
  C2 (amended). For an archetype constructed by \<^verbatim>\<open>Init\<close> that contains a zero-sized
  component id, \<^verbatim>\<open>Get\<close> returns for every row the base pointer of the column, which is
  not nil, while the mask bit of the id is set. In the column store a zero item size
  means that the base pointer stays as it is (\<^verbatim>\<open>extend\<close> does not reallocate the column)
  and that zeroing or setting a row writes no memory.
\<close>

theorem zero_sized_column:
  assumes "Init mtb et h a ci fs cs = Inr (h', a')"
    and "c \<in> set cs"
    and "Size (Type c) = 0"
  shows "\<exists>p. p \<noteq> nil \<and> getStorage a' (ID c) = Inr \<lparr>pointer = p, itemSize = 0\<rparr> \<and>
           (\<forall>row. Get a' row (ID c) = Inr p) \<and>
           Mask_Get (Mask a') (ID c) \<and>
           (\<forall>g b. getStorage b (ID c) = Inr \<lparr>pointer = p, itemSize = 0\<rparr> \<longrightarrow>
              (\<forall>g2 b2. extend g b = Inr (g2, b2) \<longrightarrow>
                 getStorage b2 (ID c) = Inr \<lparr>pointer = p, itemSize = 0\<rparr>) \<and>
              (\<forall>row. Zero g b row (ID c) = Inr g) \<and>
              (\<forall>row src. Set g b row (ID c) src = Inr (g, p)))"
proof -
  from Init_itemSize_zero [OF assms] obtain bl where
    gs: "getStorage a' (ID c) = Inr \<lparr>pointer = Ptr bl 0, itemSize = 0\<rparr>"
    by blast
  let ?p = "Ptr bl 0"
  have 1: "?p \<noteq> nil" by (simp add: nil_def)
  have 2: "Get a' row (ID c) = Inr ?p" for row
    using gs by (simp add: Get_def layout_Get_def nil_def)
  have 3: "Mask_Get (Mask a') (ID c)" by (rule Init_Mask [OF assms(1,2)])
  have 4: "getStorage b2 (ID c) = Inr \<lparr>pointer = ?p, itemSize = 0\<rparr>"
    if b: "getStorage b (ID c) = Inr \<lparr>pointer = ?p, itemSize = 0\<rparr>"
      and e: "extend g b = Inr (g2, b2)" for g b g2 b2
  proof -
    from b have inb: "unat (ID c) < length (layouts b)"
      and lay: "layouts b ! unat (ID c) = \<lparr>pointer = ?p, itemSize = 0\<rparr>"
      by (auto simp: getStorage_def split: if_splits)
    from lay have "itemSize (layouts b ! unat (ID c)) = 0" by simp
    from extend_zero_layout [OF e this] inb lay show ?thesis
      by (simp add: getStorage_def)
  qed
  have 5: "Zero g b row (ID c) = Inr g"
    if "getStorage b (ID c) = Inr \<lparr>pointer = ?p, itemSize = 0\<rparr>" for g b row
    using that by (simp add: Zero_def)
  have 6: "Set g b row (ID c) src = Inr (g, ?p)"
    if "getStorage b (ID c) = Inr \<lparr>pointer = ?p, itemSize = 0\<rparr>" for g b row src
    using that by (simp add: Set_def layout_Get_def nil_def)
  from 1 gs 2 3 4 5 6 show ?thesis by blast
qed

theorem zero_sized_column_witness:
  "\<lparr>ID = 3, Type = Tag\<rparr> \<in> set ex_components \<and> Size Tag = 0 \<and>
   (\<exists>p. p \<noteq> nil \<and> (\<forall>row. Get ex_archetype row 3 = Inr p) \<and>
        (\<forall>row. Zero ex_heap ex_archetype row 3 = Inr ex_heap)) \<and>
   Mask_Get (Mask ex_archetype) 3"
proof -
  have c: "\<lparr>ID = 3, Type = Tag\<rparr> \<in> set ex_components"
    by (simp add: ex_components_def)
  have z: "Size (Type \<lparr>ID = 3, Type = Tag\<rparr>) = 0" by (simp add: Tag_def)
  from zero_sized_column [OF Init_ex c z] obtain p where
    p: "p \<noteq> nil" "getStorage ex_archetype 3 = Inr \<lparr>pointer = p, itemSize = 0\<rparr>"
      "\<forall>row. Get ex_archetype row 3 = Inr p" "Mask_Get (Mask ex_archetype) 3"
      "\<forall>g b. getStorage b 3 = Inr \<lparr>pointer = p, itemSize = 0\<rparr> \<longrightarrow>
              (\<forall>g2 b2. extend g b = Inr (g2, b2) \<longrightarrow>
                 getStorage b2 3 = Inr \<lparr>pointer = p, itemSize = 0\<rparr>) \<and>
              (\<forall>row. Zero g b row 3 = Inr g) \<and>
              (\<forall>row src. Set g b row 3 src = Inr (g, p))"
    by auto
  from p(5) p(2) have "\<forall>row. Zero ex_heap ex_archetype row 3 = Inr ex_heap" by blast
  with p c z show ?thesis by (auto simp: Tag_def)
qed

section \<open>Columns and rows\<close>

lemma column_okE:
  assumes "column_ok h a n i" "itemSize (layouts a ! unat i) \<noteq> 0"
  obtains b where
    "pointer (layouts a ! unat i) = Ptr b 0" "b < length h"
    "length (h ! b) = n * unat (itemSize (layouts a ! unat i))"
    "unat (itemSize (layouts a ! unat i)) \<le> MaxInt32"
    "unat i < length (layouts a)" "unat i < length (indices a)"
    "unat (indices a ! unat i) < length (buffers a)"
    "buffers a ! unat (indices a ! unat i) =
       \<lparr>elemType = elemType (buffers a ! unat (indices a ! unat i)), count = n, addr = Ptr b 0\<rparr>"
    "Size (elemType (buffers a ! unat (indices a ! unat i))) = itemSize (layouts a ! unat i)"
  using assms by (auto simp: column_ok_def split: pointer.splits)

lemma column_ok_inb: "column_ok h a n i \<Longrightarrow> unat i < length (layouts a)"
  by (simp add: column_ok_def)

lemma column_ok_getStorage: "column_ok h a n i \<Longrightarrow> getStorage a i = Inr (layouts a ! unat i)"
  by (simp add: column_ok_def getStorage_def)

text \<open>The address of a row: no wrap-around for a row below \<open>2^32\<close>.\<close>

lemma row_mult:
  fixes row sz :: uintptr
  assumes "unat row < 2 ^ 32" "unat sz \<le> MaxInt32"
  shows "unat (row * sz) = unat row * unat sz" "unat row * unat sz < 2 ^ 64"
proof -
  have "unat row * unat sz \<le> 2 ^ 32 * MaxInt32"
    using assms by (intro mult_le_mono) simp_all
  also have "\<dots> < 2 ^ 64" by (simp add: MaxInt32_def)
  finally show b: "unat row * unat sz < 2 ^ 64" .
  then show "unat (row * sz) = unat row * unat sz"
    by (simp add: unat_mult_lem [THEN iffD1])
qed

lemma row_addr:
  fixes row sz :: uintptr
  assumes "unat row < 2 ^ 32" "unat sz \<le> MaxInt32"
  shows "unsafe_Add (Ptr b 0) (row * sz) = Ptr b (unat row * unat sz)"
    and "unsafe_Add (Ptr b 0) (sz * row) = Ptr b (unat row * unat sz)"
proof -
  show "unsafe_Add (Ptr b 0) (row * sz) = Ptr b (unat row * unat sz)"
    using row_mult [OF assms] by simp
  then show "unsafe_Add (Ptr b 0) (sz * row) = Ptr b (unat row * unat sz)"
    by (simp only: mult.commute [of sz row])
qed

lemma u32_bound: "unat (w :: u32) < 2 ^ 32"
  using unsigned_less [of w] by simp

lemma row_bytes_ok:
  assumes "pointer (layouts a ! unat i) = Ptr b 0"
    "unat (itemSize (layouts a ! unat i)) \<le> MaxInt32" "unat row < 2 ^ 32"
  shows "row_bytes h a i row =
     load h (Ptr b (unat row * unat (itemSize (layouts a ! unat i))))
       (unat (itemSize (layouts a ! unat i)))"
  using row_addr(2) [OF assms(3,2)] assms(1) by (simp add: row_bytes_def layout_Get_def nil_def)

lemma distinct_map_neq:
  "distinct (map f xs) \<Longrightarrow> x \<in> set xs \<Longrightarrow> y \<in> set xs \<Longrightarrow> x \<noteq> y \<Longrightarrow> f x \<noteq> f y"
  by (auto simp: distinct_map inj_on_def)

lemma Storage_item_other_block:
  assumes "Storage_ok h s" "store h (Ptr b off) bs = Some h'" "bufferAddress s \<noteq> Ptr b 0"
  shows "Storage_item h' s k = Storage_item h s k" "Storage_ok h' s"
proof -
  from assms(1) obtain be where be: "bufferAddress s = Ptr be 0" "be < length h"
    "length (h ! be) = unat (s_cap s) * unat (s_itemSize s)" and sz: "unat (s_itemSize s) \<le> MaxInt32"
    by (rule Storage_okE)
  from be(1) assms(3) have ne: "be \<noteq> b" by simp
  show "Storage_item h' s k = Storage_item h s k"
    using load_store_disj [OF assms(2), of be] ne
    by (simp add: Storage_item_ok [OF be(1) sz])
  show "Storage_ok h' s"
    using assms(1) store_length [OF assms(2)] store_block_length [OF assms(2)]
    by (simp add: Storage_ok_def split: pointer.splits)
qed

lemma column_ok_store:
  assumes "column_ok h a n i" "store h p bs = Some h'"
  shows "column_ok h' a n i"
  using assms(1) store_length [OF assms(2)] store_block_length [OF assms(2)]
  by (simp add: column_ok_def split: pointer.splits)

section \<open>Setting a component\<close>

lemma load_store_zero: "store h q bs = Some h' \<Longrightarrow> load h' p 0 = load h p 0"
  using store_length [of h q bs h'] store_block_length [of h q bs h']
  by (auto simp: load_def split: pointer.splits)

lemma load_Some_not_nil: "load h p n = Some bs \<Longrightarrow> p \<noteq> nil"
  by (auto simp: load_def nil_def split: pointer.splits)

lemma archetype_ok_store:
  assumes ok: "archetype_ok h a" and st: "store h (Ptr b off) bs = Some h'"
    and col: "Ptr b 0 \<in> set (map (column_pointer a) (columns a))"
  shows "archetype_ok h' a"
proof -
  from ok col have "bufferAddress (entities a) \<noteq> Ptr b 0"
    by (auto simp: archetype_ok_def)
  from Storage_item_other_block(2) [OF _ st this] ok have "Storage_ok h' (entities a)"
    by (simp add: archetype_ok_def)
  with ok column_ok_store [OF _ st] show ?thesis
    unfolding archetype_ok_def by blast
qed

text \<open>
  C7. For an archetype that satisfies its invariant, a row below the length and a
  component id of the archetype with an item size that is not zero: \<^verbatim>\<open>Set\<close> returns the
  pointer that \<^verbatim>\<open>Get\<close> returns, the bytes behind it are afterwards the bytes that were
  behind the source, for the item size of the column, and no other row of the column, no
  row of another column and no entity is modified.
\<close>

theorem Set_then_Get:
  assumes ok: "archetype_ok h a"
    and i: "i \<in> set (Ids a)" "itemSize (layouts a ! unat i) \<noteq> 0"
    and row: "unat row < unat (a_len a)"
    and src: "load h src (unat (itemSize (layouts a ! unat i))) = Some bs"
  shows "\<exists>h' dst. Set h a row i src = Inr (h', dst) \<and> Get a row i = Inr dst \<and>
           load h' dst (unat (itemSize (layouts a ! unat i))) = Some bs \<and>
           (\<forall>j r. j \<in> set (Ids a) \<longrightarrow> j \<noteq> i \<or> (r \<noteq> row \<and> unat r < unat (a_cap a)) \<longrightarrow>
              row_bytes h' a j r = row_bytes h a j r) \<and>
           (\<forall>k. Storage_item h' (entities a) k = Storage_item h (entities a) k) \<and>
           archetype_ok h' a"
proof -
  let ?lay = "layouts a ! unat i"
  let ?sz = "unat (itemSize ?lay)"
  let ?n = "unat (a_cap a)"
  from ok i(1) have cok: "column_ok h a ?n i" by (simp add: archetype_ok_def)
  from cok i(2) obtain b where b: "pointer ?lay = Ptr b 0" "b < length h"
    "length (h ! b) = ?n * ?sz" and sz: "?sz \<le> MaxInt32"
    by (rule column_okE)
  have nsz: "\<not> MaxInt32 < ?sz" using sz by simp
  from ok have "unat (a_len a) \<le> ?n" by (simp add: archetype_ok_def word_le_nat_alt)
  with row have rn: "unat row < ?n" by simp
  have n32: "?n < 2 ^ 32" by (rule u32_bound)
  with rn have r32: "unat row < 2 ^ 32" by simp
  let ?dst = "Ptr b (unat row * ?sz)"
  have dst: "layout_Get ?lay row = ?dst"
    using row_addr(2) [OF r32 sz] b(1) by (simp add: layout_Get_def nil_def)
  have gs: "getStorage a i = Inr ?lay" by (rule column_ok_getStorage [OF cok])
  have lbs: "length bs = ?sz" using src by (rule load_length)
  have "unat row * ?sz + ?sz \<le> length (h ! b)"
    using row_in_bounds [OF rn, of ?sz] b(3) by simp
  then obtain h' where h': "store h ?dst bs = Some h'"
    using store_Some [of b h "unat row * ?sz" bs] b(2) lbs by auto
  from i(2) have pos: "?sz \<noteq> 0" by (simp add: unat_eq_zero)
  have cp: "copy h src ?dst (itemSize ?lay) = Inr h'"
    using load_Some_not_nil [OF src] src h' pos
    by (simp add: copy_def nil_def nsz memmove_def)
  have 1: "Set h a row i src = Inr (h', ?dst)"
    using gs i(2) cp by (simp add: Set_def dst)
  have 2: "Get a row i = Inr ?dst" using gs by (simp add: Get_def dst)
  have 3: "load h' ?dst ?sz = Some bs" using load_store_same [OF h'] by (simp add: lbs)
  have icol: "i \<in> set (columns a)" using i by (simp add: columns_def)
  have 4: "row_bytes h' a j r = row_bytes h a j r"
    if j: "j \<in> set (Ids a)" and d: "j \<noteq> i \<or> (r \<noteq> row \<and> unat r < ?n)" for j r
  proof (cases "itemSize (layouts a ! unat j) = 0")
    case True
    then show ?thesis using load_store_zero [OF h'] by (simp add: row_bytes_def)
  next
    case False
    from ok j have "column_ok h a ?n j" by (simp add: archetype_ok_def)
    from this False obtain bj where bj: "pointer (layouts a ! unat j) = Ptr bj 0"
      by (rule column_okE)
    have jcol: "j \<in> set (columns a)" using j False by (simp add: columns_def)
    show ?thesis
    proof (cases "j = i")
      case True
      with d have r: "r \<noteq> row" "unat r < ?n" by simp_all
      from r(2) n32 have "unat r < 2 ^ 32" by simp
      note rb = row_bytes_ok [OF b(1) sz this]
      from r(1) have "unat r \<noteq> unat row" by (simp add: word_unat_eq_iff)
      from row_disjoint [OF this, of ?sz] show ?thesis
        using load_store_disj [OF h', of b "unat r * ?sz" ?sz] by (auto simp: True rb lbs)
    next
      case False
      from ok have "distinct (map (column_pointer a) (columns a))" by (simp add: archetype_ok_def)
      from distinct_map_neq [OF this jcol icol False] bj b(1) have ne: "bj \<noteq> b"
        by (simp add: column_pointer_def)
      obtain off where "layout_Get (layouts a ! unat j) r = Ptr bj off"
        using bj by (simp add: layout_Get_def nil_def)
      then show ?thesis
        using load_store_disj [OF h', of bj] ne by (simp add: row_bytes_def)
    qed
  qed
  have pcol: "Ptr b 0 \<in> set (map (column_pointer a) (columns a))"
    using icol b(1) by (force simp: column_pointer_def)
  with ok have ne: "bufferAddress (entities a) \<noteq> Ptr b 0"
    by (auto simp: archetype_ok_def)
  from ok have "Storage_ok h (entities a)" by (simp add: archetype_ok_def)
  from Storage_item_other_block(1) [OF this h' ne]
  have 5: "Storage_item h' (entities a) k = Storage_item h (entities a) k" for k .
  have 6: "archetype_ok h' a" by (rule archetype_ok_store [OF ok h' pcol])
  from 1 2 3 4 5 6 show ?thesis by blast
qed

lemma Zero_loop_numeral:
  "Zero_loop h dst (numeral k) =
     (case store h dst [0] of
        None \<Rightarrow> Inl OutOfBounds
      | Some h' \<Rightarrow> Zero_loop h' (unsafe_Add dst 1) (pred_numeral k))"
  by (simp add: numeral_eq_Suc)

lemma nth_Cons_pred_numeral: "(x # xs) ! numeral k = xs ! pred_numeral k"
  by (simp add: numeral_eq_Suc)

lemmas heap_eval = load_def store_def memmove_def copy_def MaxInt32_def nil_def
  getStorage_def layout_Get_def Let_def list_eval Zero_loop_numeral

lemma Alloc_ex:
  "Alloc ex_heap ex_archetype ex_entity True = Inr (ex_heap1, ex_archetype1, 0)"
  by (simp add: Alloc_def Storage_Add_def Storage_extend_def Storage_set_def Storage_Get_def
      extend_def ZeroAll_def Zero_def heap_eval
      ex_heap_def ex_archetype_def ex_entity_def ex_heap1_def ex_archetype1_def EntityType_def)

lemma archetype_ok_ex: "archetype_ok ex_heap ex_archetype"
  by (simp add: archetype_ok_def column_ok_def columns_def column_pointer_def Storage_ok_def
      Storage_buffer_ok_def ex_heap_def ex_archetype_def EntityType_def Position_def Tag_def
      MaxInt32_def nil_def)

lemma archetype_ok_ex1: "archetype_ok ex_heap1 ex_archetype1"
  by (simp add: archetype_ok_def column_ok_def columns_def column_pointer_def Storage_ok_def
      Storage_buffer_ok_def ex_heap1_def ex_archetype1_def ex_archetype_def EntityType_def
      Position_def Tag_def MaxInt32_def nil_def)

theorem Set_then_Get_witness:
  "archetype_ok ex_heap1 ex_archetype1 \<and> 1 \<in> set (Ids ex_archetype1) \<and>
   itemSize (layouts ex_archetype1 ! unat (1 :: ID)) = 8 \<and>
   unat (0 :: uintptr) < unat (a_len ex_archetype1) \<and>
   load ex_heap1 (Ptr 3 0) 8 = Some ex_entity \<and>
   (\<exists>h' dst. Set ex_heap1 ex_archetype1 0 1 (Ptr 3 0) = Inr (h', dst) \<and>
      Get ex_archetype1 0 1 = Inr dst \<and> load h' dst 8 = Some ex_entity)"
proof -
  have i: "1 \<in> set (Ids ex_archetype1)"
    and sz: "itemSize (layouts ex_archetype1 ! unat (1 :: ID)) = 8"
    and row: "unat (0 :: uintptr) < unat (a_len ex_archetype1)"
    by (simp_all add: ex_archetype1_def ex_archetype_def)
  from sz have nz: "itemSize (layouts ex_archetype1 ! unat (1 :: ID)) \<noteq> 0" by simp
  have src: "load ex_heap1 (Ptr 3 0) (unat (itemSize (layouts ex_archetype1 ! unat (1 :: ID))))
      = Some ex_entity"
    unfolding sz by (simp add: load_def ex_heap1_def ex_entity_def)
  from Set_then_Get [OF archetype_ok_ex1 i nz row src] archetype_ok_ex1 i sz row src
  show ?thesis unfolding sz by simp blast
qed

section \<open>Swap-remove in the archetype\<close>

lemma column_ok_heap:
  assumes "column_ok h a n i" "length h' = length h" "\<forall>b. length (h' ! b) = length (h ! b)"
  shows "column_ok h' a n i"
  using assms by (simp add: column_ok_def split: pointer.splits)

lemma load_block_eq:
  assumes "h' ! b = h ! b" "length h' = length h"
  shows "load h' (Ptr b off) m = load h (Ptr b off) m"
  using assms by (simp add: load_def)

lemma load_zero_eq:
  assumes "length h' = length h" "\<forall>b. length (h' ! b) = length (h ! b)"
  shows "load h' p 0 = load h p 0"
  using assms by (auto simp: load_def split: pointer.splits)

lemma row_bytes_zero_size:
  assumes "itemSize (layouts a ! unat i) = 0"
  shows "row_bytes h a i r = row_bytes h a i r'"
  using assms by (simp add: row_bytes_def layout_Get_def)

lemma row_bytes_heap:
  assumes "length h' = length h" "\<forall>b. length (h' ! b) = length (h ! b)"
    and "itemSize (layouts a ! unat i) \<noteq> 0 \<longrightarrow>
           (\<exists>b. pointer (layouts a ! unat i) = Ptr b 0 \<and> h' ! b = h ! b)"
  shows "row_bytes h' a i r = row_bytes h a i r"
proof (cases "itemSize (layouts a ! unat i) = 0")
  case True
  then show ?thesis using load_zero_eq [OF assms(1,2)] by (simp add: row_bytes_def)
next
  case False
  with assms(3) obtain b where b: "pointer (layouts a ! unat i) = Ptr b 0" "h' ! b = h ! b"
    by blast
  obtain off where "layout_Get (layouts a ! unat i) r = Ptr b off"
    using b(1) by (simp add: layout_Get_def nil_def)
  then show ?thesis using load_block_eq [OF b(2) assms(1)] by (simp add: row_bytes_def)
qed

text \<open>The loop of \<^verbatim>\<open>Remove\<close> over columns that are in order: in every column, row \<open>n\<close>
  receives the bytes of row \<open>o\<close>; nothing else changes.\<close>

lemma Remove_loop_spec:
  assumes "\<forall>i\<in>set ids. column_ok h a N i"
    and "distinct (map (column_pointer a) (filter (\<lambda>i. itemSize (layouts a ! unat i) \<noteq> 0) ids))"
    and "unat o' < N" "unat n < N" "N < 2 ^ 32"
  shows "\<exists>h'. Remove_loop h a o' n ids = Inr h' \<and> length h' = length h \<and>
           (\<forall>b. length (h' ! b) = length (h ! b)) \<and>
           (\<forall>b. Ptr b 0 \<notin> column_pointer a ` {i \<in> set ids. itemSize (layouts a ! unat i) \<noteq> 0}
                \<longrightarrow> h' ! b = h ! b) \<and>
           (\<forall>i\<in>set ids. \<forall>r. unat r < N \<longrightarrow>
              row_bytes h' a i r = row_bytes h a i (if r = n then o' else r))"
  using assms(1,2)
proof (induction ids arbitrary: h)
  case Nil
  then show ?case by simp
next
  case (Cons i ids)
  let ?lay = "layouts a ! unat i"
  let ?sz = "unat (itemSize ?lay)"
  let ?nz = "\<lambda>i. itemSize (layouts a ! unat i) \<noteq> 0"
  from Cons.prems(1) have cok: "column_ok h a N i" by simp
  have gs: "getStorage a i = Inr ?lay" by (rule column_ok_getStorage [OF cok])
  from Cons.prems(2) have dist: "distinct (map (column_pointer a) (filter ?nz ids))"
    by (simp split: if_splits)
  show ?case
  proof (cases "n = o' \<or> itemSize ?lay = 0")
    case True
    then have step: "Remove_loop h a o' n (i # ids) = Remove_loop h a o' n ids"
      using gs by auto
    from Cons.prems(1) have "\<forall>i\<in>set ids. column_ok h a N i" by simp
    from Cons.IH [OF this dist] obtain h' where
      h': "Remove_loop h a o' n ids = Inr h'" "length h' = length h"
      "\<forall>b. length (h' ! b) = length (h ! b)"
      "\<forall>b. Ptr b 0 \<notin> column_pointer a ` {i \<in> set ids. ?nz i} \<longrightarrow> h' ! b = h ! b"
      "\<forall>i\<in>set ids. \<forall>r. unat r < N \<longrightarrow>
              row_bytes h' a i r = row_bytes h a i (if r = n then o' else r)"
      by blast
    have head: "row_bytes h' a i r = row_bytes h a i (if r = n then o' else r)"
      if r: "unat r < N" for r
    proof (cases "itemSize ?lay = 0")
      case True
      have "row_bytes h' a i r = row_bytes h a i r"
        using True by (intro row_bytes_heap h'(2,3)) simp
      also have "\<dots> = row_bytes h a i (if r = n then o' else r)"
        by (rule row_bytes_zero_size [OF True])
      finally show ?thesis .
    next
      case False
      with \<open>n = o' \<or> itemSize ?lay = 0\<close> have no: "n = o'" by simp
      from cok False obtain b where b: "pointer ?lay = Ptr b 0" by (rule column_okE)
      show ?thesis
      proof (cases "i \<in> set ids")
        case True
        with h'(5) r show ?thesis by blast
      next
        case False
        have "Ptr b 0 \<notin> column_pointer a ` {i \<in> set ids. ?nz i}"
          using Cons.prems(2) \<open>itemSize ?lay \<noteq> 0\<close> b by (auto simp: column_pointer_def)
        with h'(4) have "h' ! b = h ! b" by blast
        with b have "row_bytes h' a i r = row_bytes h a i r"
          by (intro row_bytes_heap h'(2,3)) simp
        with no show ?thesis by simp
      qed
    qed
    have frame: "h' ! b = h ! b"
      if "Ptr b 0 \<notin> column_pointer a ` {j \<in> set (i # ids). ?nz j}" for b
      using that h'(4) by auto
    from step h' head frame show ?thesis by auto
  next
    case False
    then have ne: "n \<noteq> o'" and nz: "itemSize ?lay \<noteq> 0" by simp_all
    from cok nz obtain b where b: "pointer ?lay = Ptr b 0" "b < length h"
      "length (h ! b) = N * ?sz" and sz: "?sz \<le> MaxInt32"
      by (rule column_okE)
    have nsz: "\<not> MaxInt32 < ?sz" using sz by simp
    from nz have pos: "?sz \<noteq> 0" by (simp add: unat_eq_zero)
    from assms(3,4,5) have o32: "unat o' < 2 ^ 32" and n32: "unat n < 2 ^ 32" by simp_all
    let ?src = "Ptr b (unat o' * ?sz)" and ?dst = "Ptr b (unat n * ?sz)"
    have src: "unsafe_Add (pointer ?lay) (o' * itemSize ?lay) = ?src"
      using row_addr(1) [OF o32 sz] b(1) by simp
    have dst: "unsafe_Add (pointer ?lay) (n * itemSize ?lay) = ?dst"
      using row_addr(1) [OF n32 sz] b(1) by simp
    have "unat o' * ?sz + ?sz \<le> length (h ! b)"
      using row_in_bounds [OF assms(3), of ?sz] b(3) by simp
    then obtain bs where bs: "load h ?src ?sz = Some bs"
      using b(2) by (simp add: load_def)
    then have lbs: "length bs = ?sz" by (rule load_length)
    have "unat n * ?sz + ?sz \<le> length (h ! b)"
      using row_in_bounds [OF assms(4), of ?sz] b(3) by simp
    then obtain h1 where h1: "store h ?dst bs = Some h1"
      using store_Some [of b h "unat n * ?sz" bs] b(2) lbs by auto
    have cp: "copy h ?src ?dst (itemSize ?lay) = Inr h1"
      using bs h1 pos by (simp add: copy_def nil_def nsz memmove_def)
    have step: "Remove_loop h a o' n (i # ids) = Remove_loop h1 a o' n ids"
      using gs ne nz cp by (simp add: Let_def src dst)
    note len1 = store_length [OF h1] and blen1 = store_block_length [OF h1]
    from Cons.prems(1) have "\<forall>i\<in>set ids. column_ok h1 a N i"
      using column_ok_store [OF _ h1] by simp
    from Cons.IH [OF this dist] obtain h' where
      h': "Remove_loop h1 a o' n ids = Inr h'" "length h' = length h1"
      "\<forall>b. length (h' ! b) = length (h1 ! b)"
      "\<forall>b. Ptr b 0 \<notin> column_pointer a ` {i \<in> set ids. ?nz i} \<longrightarrow> h' ! b = h1 ! b"
      "\<forall>i\<in>set ids. \<forall>r. unat r < N \<longrightarrow>
              row_bytes h' a i r = row_bytes h1 a i (if r = n then o' else r)"
      by blast
    have inotin: "Ptr b 0 \<notin> column_pointer a ` {i \<in> set ids. ?nz i}"
      using Cons.prems(2) nz b(1) by (auto simp: column_pointer_def)
    with h'(4) have hb: "h' ! b = h1 ! b" by blast
    have rb1: "row_bytes h1 a i r = row_bytes h a i (if r = n then o' else r)"
      if r: "unat r < N" for r
    proof -
      from r assms(5) have r32: "unat r < 2 ^ 32" by simp
      show ?thesis
      proof (cases "r = n")
        case True
        then show ?thesis
          using load_store_same [OF h1] bs
          by (simp add: row_bytes_ok [OF b(1) sz n32] row_bytes_ok [OF b(1) sz o32] lbs)
      next
        case False
        then have "unat r \<noteq> unat n" by (simp add: word_unat_eq_iff)
        from row_disjoint [OF this, of ?sz] False show ?thesis
          using load_store_disj [OF h1, of b "unat r * ?sz" ?sz]
          by (auto simp: row_bytes_ok [OF b(1) sz r32] lbs)
      qed
    qed
    have head: "row_bytes h' a i r = row_bytes h a i (if r = n then o' else r)"
      if r: "unat r < N" for r
    proof -
      have "row_bytes h' a i r = row_bytes h1 a i r"
        using b(1) hb by (intro row_bytes_heap h'(2,3)) simp
      with rb1 [OF r] show ?thesis by simp
    qed
    have tail: "row_bytes h' a j r = row_bytes h a j (if r = n then o' else r)"
      if j: "j \<in> set ids" and r: "unat r < N" for j r
    proof (cases "j = i")
      case True
      with head [OF r] show ?thesis by simp
    next
      case False
      from h'(5) j r have "row_bytes h' a j r = row_bytes h1 a j (if r = n then o' else r)"
        by blast
      also have "\<dots> = row_bytes h a j (if r = n then o' else r)"
      proof (rule row_bytes_heap [OF len1], intro allI blen1, intro impI)
        assume jnz: "itemSize (layouts a ! unat j) \<noteq> 0"
        from Cons.prems(1) j have "column_ok h a N j" by simp
        from this jnz obtain bj where bj: "pointer (layouts a ! unat j) = Ptr bj 0"
          by (rule column_okE)
        from Cons.prems(2) nz jnz j have "column_pointer a i \<noteq> column_pointer a j"
          by auto
        with b(1) bj have "bj \<noteq> b" by (simp add: column_pointer_def)
        with store_other_block [OF h1] bj
        show "\<exists>b. pointer (layouts a ! unat j) = Ptr b 0 \<and> h1 ! b = h ! b" by simp
      qed
      finally show ?thesis .
    qed
    have frame: "h' ! b' = h ! b'"
      if "Ptr b' 0 \<notin> column_pointer a ` {j \<in> set (i # ids). ?nz j}" for b'
    proof -
      have "Ptr b 0 \<in> column_pointer a ` {j \<in> set (i # ids). ?nz j}"
        using nz b(1) by (force simp: column_pointer_def)
      with that have "b' \<noteq> b" by auto
      with store_other_block [OF h1] have "h1 ! b' = h ! b'" by simp
      moreover from that h'(4) have "h' ! b' = h1 ! b'" by auto
      ultimately show ?thesis by simp
    qed
    from step h' len1 blen1 head tail frame show ?thesis by auto
  qed
qed

lemma unat_ucast_down:
  fixes w :: uintptr
  assumes "unat w < 2 ^ 32"
  shows "unat (ucast w :: u32) = unat w"
  using assms by (simp add: unsigned_ucast_eq take_bit_nat_eq_self_iff)

lemma Storage_ok_heap:
  assumes "Storage_ok h s" "length h' = length h" "\<forall>b. length (h' ! b) = length (h ! b)"
  shows "Storage_ok h' s"
  using assms by (simp add: Storage_ok_def split: pointer.splits)

lemma Storage_Remove_lengths:
  assumes ok: "Storage_ok h s" and len: "index < s_len s" "s_len s \<le> s_cap s"
    and rm: "Storage_Remove h s index = Inr (h', r)"
  shows "length (h' ! b) = length (h ! b)"
proof -
  from Storage_Remove_inbounds [OF ok len] rm
  have ok': "Storage_ok h' (s\<lparr>s_len := s_len s - 1\<rparr>)"
    and fr: "\<forall>b'. bufferAddress s \<noteq> Ptr b' 0 \<longrightarrow> h' ! b' = h ! b'"
    by auto
  show ?thesis
  proof (cases "bufferAddress s = Ptr b 0")
    case True
    with ok ok' show ?thesis by (simp add: Storage_ok_def)
  next
    case False
    with fr show ?thesis by simp
  qed
qed

lemma column_ok_entities_upd [simp]:
  "column_ok h (a\<lparr>entities := e\<rparr>) n i = column_ok h a n i"
  by (simp add: column_ok_def cong: pointer.case_cong)

lemma column_ok_len_upd [simp]:
  "column_ok h (a\<lparr>a_len := l\<rparr>) n i = column_ok h a n i"
  by (simp add: column_ok_def cong: pointer.case_cong)

lemma row_bytes_upd [simp]:
  "row_bytes h (a\<lparr>entities := e\<rparr>) i r = row_bytes h a i r"
  "row_bytes h (a\<lparr>a_len := l\<rparr>) i r = row_bytes h a i r"
  by (simp_all add: row_bytes_def)

lemma columns_upd [simp]:
  "columns (a\<lparr>entities := e\<rparr>) = columns a"
  "columns (a\<lparr>a_len := l\<rparr>) = columns a"
  "column_pointer (a\<lparr>entities := e\<rparr>) = column_pointer a"
  "column_pointer (a\<lparr>a_len := l\<rparr>) = column_pointer a"
  by (simp_all add: columns_def column_pointer_def fun_eq_iff)

lemma Remove_loop_entities_upd [simp]:
  "Remove_loop h (a\<lparr>entities := e\<rparr>) o' n ids = Remove_loop h a o' n ids"
  by (induction ids arbitrary: h) (simp_all add: getStorage_def split: sum.splits)

lemma Remove_spec:
  assumes ok: "archetype_ok g a" and row: "unat row < unat (a_len a)"
  shows "\<exists>g'. Remove g a row =
             Inr (g', a\<lparr>entities := (entities a)\<lparr>s_len := s_len (entities a) - 1\<rparr>,
                        a_len := a_len a - 1\<rparr>,
                  unat row < unat (a_len a) - 1) \<and>
           (\<exists>g1 e1. Storage_Remove g (entities a) (ucast row) =
                       Inr (g1, e1, unat row < unat (a_len a) - 1)) \<and>
           (\<forall>i\<in>set (Ids a). \<forall>r. unat r < unat (a_cap a) \<longrightarrow>
              row_bytes g' a i r = row_bytes g a i (if r = row then ucast (a_len a - 1) else r)) \<and>
           (unat row < unat (a_len a) - 1 \<longrightarrow>
              Storage_item g' (entities a) (ucast row) =
                Storage_item g (entities a) (s_len (entities a) - 1)) \<and>
           (\<forall>k. k \<noteq> ucast row \<longrightarrow>
              Storage_item g' (entities a) k = Storage_item g (entities a) k) \<and>
           archetype_ok g' (a\<lparr>entities := (entities a)\<lparr>s_len := s_len (entities a) - 1\<rparr>,
                              a_len := a_len a - 1\<rparr>)"
proof -
  let ?s = "entities a"
  let ?s' = "?s\<lparr>s_len := s_len ?s - 1\<rparr>"
  let ?N = "unat (a_cap a)"
  let ?i32 = "ucast row :: u32"
  from ok have sok: "Storage_ok g ?s" and sl: "s_len ?s = a_len a"
    and lc: "a_len a \<le> a_cap a" and slc: "s_len ?s \<le> s_cap ?s"
    and cols: "\<forall>i\<in>set (Ids a). column_ok g a ?N i"
    and dist: "distinct (map (column_pointer a) (columns a))"
    and ent: "bufferAddress ?s \<notin> set (map (column_pointer a) (columns a))"
    and bok: "Storage_buffer_ok ?s"
    unfolding archetype_ok_def by blast+
  have l32: "unat (a_len a) < 2 ^ 32" by (rule u32_bound)
  with row have r32: "unat row < 2 ^ 32" by simp
  have ui: "unat ?i32 = unat row" by (rule unat_ucast_down [OF r32])
  have ilt: "?i32 < s_len ?s" using row by (simp add: word_less_nat_alt ui sl)
  from row have nz: "a_len a \<noteq> 0" by auto
  then have lm1: "unat (a_len a - 1) = unat (a_len a) - 1" by (rule unat_minus_one)
  have swapped: "?i32 < s_len ?s - 1 \<longleftrightarrow> unat row < unat (a_len a) - 1"
    by (simp add: word_less_nat_alt ui sl lm1)
  from Storage_Remove_inbounds [OF sok ilt slc] obtain g1 where
    g1: "Storage_Remove g ?s ?i32 = Inr (g1, ?s', ?i32 < s_len ?s - 1)"
      "length g1 = length g" "Storage_ok g1 ?s'"
      "?i32 < s_len ?s - 1 \<longrightarrow> Storage_item g1 ?s ?i32 = Storage_item g ?s (s_len ?s - 1)"
      "\<forall>j. j \<noteq> ?i32 \<longrightarrow> Storage_item g1 ?s j = Storage_item g ?s j"
      "\<forall>b'. bufferAddress ?s \<noteq> Ptr b' 0 \<longrightarrow> g1 ! b' = g ! b'"
    by blast
  have blen1: "\<forall>b. length (g1 ! b) = length (g ! b)"
    using Storage_Remove_lengths [OF sok ilt slc g1(1)] by simp
  have cols1: "\<forall>i\<in>set (Ids a). column_ok g1 a ?N i"
    using cols column_ok_heap [OF _ g1(2) blen1] by blast
  let ?o = "ucast (a_len a - 1) :: uintptr"
  have uo: "unat ?o = unat (a_len a) - 1" by (simp add: unat_ucast_u32 lm1)
  from lc have lcn: "unat (a_len a) \<le> ?N" by (simp add: word_le_nat_alt)
  have oN: "unat ?o < ?N" using uo row lcn by simp
  have rN: "unat row < ?N" using row lcn by simp
  have N32: "?N < 2 ^ 32" by (rule u32_bound)
  from dist have dist': "distinct (map (column_pointer a)
      (filter (\<lambda>i. itemSize (layouts a ! unat i) \<noteq> 0) (Ids a)))"
    by (simp add: columns_def)
  from Remove_loop_spec [OF cols1 dist' oN rN N32] obtain g2 where
    g2: "Remove_loop g1 a ?o row (Ids a) = Inr g2" "length g2 = length g1"
      "\<forall>b. length (g2 ! b) = length (g1 ! b)"
      "\<forall>b. Ptr b 0 \<notin> column_pointer a ` {i \<in> set (Ids a). itemSize (layouts a ! unat i) \<noteq> 0}
                \<longrightarrow> g2 ! b = g1 ! b"
      "\<forall>i\<in>set (Ids a). \<forall>r. unat r < ?N \<longrightarrow>
              row_bytes g2 a i r = row_bytes g1 a i (if r = row then ?o else r)"
    by blast
  have 1: "Remove g a row = Inr (g2, a\<lparr>entities := ?s', a_len := a_len a - 1\<rparr>,
                  unat row < unat (a_len a) - 1)"
    using g1(1) g2(1) by (simp add: Remove_def Let_def swapped)
  have 2: "\<exists>g1 e1. Storage_Remove g ?s ?i32 = Inr (g1, e1, unat row < unat (a_len a) - 1)"
    using g1(1) by (simp add: swapped)
  from sok obtain be where be: "bufferAddress ?s = Ptr be 0"
    and esz: "unat (s_itemSize ?s) \<le> MaxInt32"
    by (rule Storage_okE)
  have 3: "row_bytes g2 a i r = row_bytes g a i (if r = row then ?o else r)"
    if i: "i \<in> set (Ids a)" and r: "unat r < ?N" for i r
  proof -
    from g2(5) i r have "row_bytes g2 a i r = row_bytes g1 a i (if r = row then ?o else r)"
      by blast
    also have "\<dots> = row_bytes g a i (if r = row then ?o else r)"
    proof (rule row_bytes_heap [OF g1(2) blen1], intro impI)
      assume inz: "itemSize (layouts a ! unat i) \<noteq> 0"
      from cols i have "column_ok g a ?N i" by simp
      from this inz obtain b where b: "pointer (layouts a ! unat i) = Ptr b 0"
        by (rule column_okE)
      from i inz have "i \<in> set (columns a)" by (simp add: columns_def)
      with ent b have "bufferAddress ?s \<noteq> Ptr b 0" by (force simp: column_pointer_def)
      with g1(6) b show "\<exists>b. pointer (layouts a ! unat i) = Ptr b 0 \<and> g1 ! b = g ! b"
        by simp
    qed
    finally show ?thesis .
  qed
  have "Ptr be 0 \<notin> column_pointer a ` {i \<in> set (Ids a). itemSize (layouts a ! unat i) \<noteq> 0}"
    using ent be by (simp add: columns_def)
  with g2(4) have gbe: "g2 ! be = g1 ! be" by blast
  have item2: "Storage_item g2 ?s k = Storage_item g1 ?s k" for k
    using load_block_eq [OF gbe g2(2)] by (simp add: Storage_item_ok [OF be esz])
  have 4: "Storage_item g2 ?s ?i32 = Storage_item g ?s (s_len ?s - 1)"
    if "unat row < unat (a_len a) - 1"
    using that g1(4) item2 by (simp add: swapped)
  have 5: "Storage_item g2 ?s k = Storage_item g ?s k" if "k \<noteq> ?i32" for k
    using that g1(5) item2 by simp
  have sok2: "Storage_ok g2 ?s'" by (rule Storage_ok_heap [OF g1(3) g2(2,3)])
  have cols2: "\<forall>i\<in>set (Ids a). column_ok g2 a ?N i"
    using cols1 column_ok_heap [OF _ g2(2,3)] by blast
  have "a_len a - 1 \<le> a_cap a" using lm1 lcn by (simp add: word_le_nat_alt)
  moreover have "s_len ?s - 1 \<le> s_cap ?s"
    using slc lm1 sl by (simp add: word_le_nat_alt)
  ultimately have 6: "archetype_ok g2 (a\<lparr>entities := ?s', a_len := a_len a - 1\<rparr>)"
    using cols2 dist ent sok2 bok sl
    by (simp add: archetype_ok_def Storage_buffer_ok_def)
  from 1 2 3 4 5 6 show ?thesis by blast
qed

lemmas Alloc_eval = Alloc_def Storage_Add_def Storage_extend_def Storage_set_def Storage_Get_def
  extend_def ZeroAll_def Zero_def heap_eval

lemma ex2_reachable:
  "\<exists>g1 g2. Alloc ex_heap1 ex_archetype1 ex_entity2 True = Inr (g1, ex_archetype2, 1) \<and>
     Set g1 ex_archetype2 0 1 (Ptr 3 0) = Inr (g2, Ptr 0 0) \<and>
     Set g2 ex_archetype2 1 1 (Ptr 4 0) = Inr (ex_heap2, Ptr 0 8)"
  by (simp add: Alloc_eval Set_def
      ex_heap1_def ex_archetype1_def ex_archetype_def ex_entity2_def ex_heap2_def
      ex_archetype2_def EntityType_def)

lemma archetype_ok_ex2: "archetype_ok ex_heap2 ex_archetype2"
  by (simp add: archetype_ok_def column_ok_def columns_def column_pointer_def Storage_ok_def
      Storage_buffer_ok_def ex_heap2_def ex_archetype2_def ex_archetype_def EntityType_def
      Position_def Tag_def MaxInt32_def nil_def)

text \<open>
  C4. On a storage that satisfies its invariant, with \<open>index < len \<le> cap\<close>,
  \<^verbatim>\<open>Storage.Remove\<close> decrements the length by exactly one, returns whether
  \<open>index < len - 1\<close>, and then the element that was at \<open>len - 1\<close> is at \<open>index\<close>. On an
  archetype that satisfies its invariant, with a row below the length, \<^verbatim>\<open>Remove\<close> does
  this in the entities column and in every component column: the length of both
  decreases by one, the row receives the bytes of the last row in every column, every
  other row stays, and the result is the boolean of the entities column.
\<close>

theorem swap_remove:
  "(Storage_ok h s \<and> index < s_len s \<and> s_len s \<le> s_cap s \<longrightarrow>
      (\<exists>h'. Storage_Remove h s index =
               Inr (h', s\<lparr>s_len := s_len s - 1\<rparr>, index < s_len s - 1) \<and>
         (index < s_len s - 1 \<longrightarrow> Storage_item h' s index = Storage_item h s (s_len s - 1)) \<and>
         (\<forall>j. j \<noteq> index \<longrightarrow> Storage_item h' s j = Storage_item h s j)) \<and>
      unat (s_len s - 1) = unat (s_len s) - 1) \<and>
   (archetype_ok g a \<and> unat row < unat (a_len a) \<longrightarrow>
      (\<exists>g'. Remove g a row =
               Inr (g', a\<lparr>entities := (entities a)\<lparr>s_len := s_len (entities a) - 1\<rparr>,
                          a_len := a_len a - 1\<rparr>,
                    unat row < unat (a_len a) - 1) \<and>
         (\<exists>g1 e1. Storage_Remove g (entities a) (ucast row) =
                     Inr (g1, e1, unat row < unat (a_len a) - 1)) \<and>
         (\<forall>i\<in>set (Ids a). \<forall>r. unat r < unat (a_cap a) \<longrightarrow>
            row_bytes g' a i r =
              row_bytes g a i (if r = row then ucast (a_len a - 1) else r)) \<and>
         (unat row < unat (a_len a) - 1 \<longrightarrow>
            Storage_item g' (entities a) (ucast row) =
              Storage_item g (entities a) (s_len (entities a) - 1)) \<and>
         (\<forall>k. k \<noteq> ucast row \<longrightarrow>
            Storage_item g' (entities a) k = Storage_item g (entities a) k) \<and>
         archetype_ok g' (a\<lparr>entities := (entities a)\<lparr>s_len := s_len (entities a) - 1\<rparr>,
                            a_len := a_len a - 1\<rparr>)) \<and>
      unat (a_len a - 1) = unat (a_len a) - 1)"
proof (intro conjI impI)
  assume a: "Storage_ok h s \<and> index < s_len s \<and> s_len s \<le> s_cap s"
  then have ok: "Storage_ok h s" and len: "index < s_len s" "s_len s \<le> s_cap s" by simp_all
  from Storage_Remove_inbounds [OF ok len]
  show "\<exists>h'. Storage_Remove h s index =
               Inr (h', s\<lparr>s_len := s_len s - 1\<rparr>, index < s_len s - 1) \<and>
         (index < s_len s - 1 \<longrightarrow> Storage_item h' s index = Storage_item h s (s_len s - 1)) \<and>
         (\<forall>j. j \<noteq> index \<longrightarrow> Storage_item h' s j = Storage_item h s j)"
    by blast
  from len(1) have "s_len s \<noteq> 0" by auto
  then show "unat (s_len s - 1) = unat (s_len s) - 1" by (rule unat_minus_one)
next
  assume a: "archetype_ok g a \<and> unat row < unat (a_len a)"
  then have ok: "archetype_ok g a" and row: "unat row < unat (a_len a)" by simp_all
  from Remove_spec [OF ok row]
  show "\<exists>g'. Remove g a row =
               Inr (g', a\<lparr>entities := (entities a)\<lparr>s_len := s_len (entities a) - 1\<rparr>,
                          a_len := a_len a - 1\<rparr>,
                    unat row < unat (a_len a) - 1) \<and>
         (\<exists>g1 e1. Storage_Remove g (entities a) (ucast row) =
                     Inr (g1, e1, unat row < unat (a_len a) - 1)) \<and>
         (\<forall>i\<in>set (Ids a). \<forall>r. unat r < unat (a_cap a) \<longrightarrow>
            row_bytes g' a i r =
              row_bytes g a i (if r = row then ucast (a_len a - 1) else r)) \<and>
         (unat row < unat (a_len a) - 1 \<longrightarrow>
            Storage_item g' (entities a) (ucast row) =
              Storage_item g (entities a) (s_len (entities a) - 1)) \<and>
         (\<forall>k. k \<noteq> ucast row \<longrightarrow>
            Storage_item g' (entities a) k = Storage_item g (entities a) k) \<and>
         archetype_ok g' (a\<lparr>entities := (entities a)\<lparr>s_len := s_len (entities a) - 1\<rparr>,
                            a_len := a_len a - 1\<rparr>)" .
  from row have "a_len a \<noteq> 0" by auto
  then show "unat (a_len a - 1) = unat (a_len a) - 1" by (rule unat_minus_one)
qed

theorem swap_remove_witness:
  "Storage_ok [[1, 2]] (ex_storage 2) \<and> (0 :: u32) < s_len (ex_storage 2) \<and>
   s_len (ex_storage 2) \<le> s_cap (ex_storage 2) \<and>
   (\<exists>h'. Storage_Remove [[1, 2]] (ex_storage 2) 0 = Inr (h', ex_storage 1, True) \<and>
      Storage_item h' (ex_storage 2) 0 = Some [2]) \<and>
   archetype_ok ex_heap2 ex_archetype2 \<and> unat (0 :: uintptr) < unat (a_len ex_archetype2) \<and>
   (\<exists>g'. Remove ex_heap2 ex_archetype2 0 = Inr (g', ex_archetype1, True) \<and>
      row_bytes g' ex_archetype2 1 0 = Some ex_entity2 \<and>
      Storage_item g' (entities ex_archetype2) 0 = Some ex_entity2)"
proof -
  have ok: "Storage_ok [[1, 2]] (ex_storage 2)"
    by (simp add: Storage_ok_def ex_storage_def MaxInt32_def)
  have len: "(0 :: u32) < s_len (ex_storage 2)" "s_len (ex_storage 2) \<le> s_cap (ex_storage 2)"
    by (simp_all add: ex_storage_def)
  have row: "unat (0 :: uintptr) < unat (a_len ex_archetype2)"
    by (simp add: ex_archetype2_def)
  have s: "ex_storage 2\<lparr>s_len := s_len (ex_storage 2) - 1\<rparr> = ex_storage 1"
    "(0 :: u32) < s_len (ex_storage 2) - 1"
    "Storage_item [[1, 2]] (ex_storage 2) (s_len (ex_storage 2) - 1) = Some [2]"
    by (simp_all add: ex_storage_def Storage_item_def Storage_Get_def load_def)
  have a: "ex_archetype2\<lparr>entities := (entities ex_archetype2)
              \<lparr>s_len := s_len (entities ex_archetype2) - 1\<rparr>,
              a_len := a_len ex_archetype2 - 1\<rparr> = ex_archetype1"
    "unat (0 :: uintptr) < unat (a_len ex_archetype2) - 1"
    "1 \<in> set (Ids ex_archetype2)" "unat (0 :: uintptr) < unat (a_cap ex_archetype2)"
    "row_bytes ex_heap2 ex_archetype2 1 (ucast (a_len ex_archetype2 - 1)) = Some ex_entity2"
    "Storage_item ex_heap2 (entities ex_archetype2) (s_len (entities ex_archetype2) - 1)
       = Some ex_entity2"
    by (simp_all add: ex_archetype2_def ex_archetype1_def ex_archetype_def ex_heap2_def
        ex_entity2_def row_bytes_def layout_Get_def Storage_item_def Storage_Get_def load_def
        nil_def)
  note T = swap_remove [of "[[1, 2]]" "ex_storage 2" 0 ex_heap2 ex_archetype2 0]
  have hyp1: "Storage_ok [[1, 2]] (ex_storage 2) \<and> (0 :: u32) < s_len (ex_storage 2) \<and>
      s_len (ex_storage 2) \<le> s_cap (ex_storage 2)"
    by (intro conjI ok len)
  from T [THEN conjunct1, THEN mp, OF hyp1, THEN conjunct1] obtain h' where
    A: "Storage_Remove [[1, 2]] (ex_storage 2) 0 =
          Inr (h', ex_storage 2\<lparr>s_len := s_len (ex_storage 2) - 1\<rparr>,
               0 < s_len (ex_storage 2) - 1)"
    and B: "0 < s_len (ex_storage 2) - 1 \<longrightarrow>
          Storage_item h' (ex_storage 2) 0 =
            Storage_item [[1, 2]] (ex_storage 2) (s_len (ex_storage 2) - 1)"
    by blast
  from A have h'1: "Storage_Remove [[1, 2]] (ex_storage 2) 0 = Inr (h', ex_storage 1, True)"
    unfolding s(1) using s(2) by simp
  from B s(2) have "Storage_item h' (ex_storage 2) 0 =
            Storage_item [[1, 2]] (ex_storage 2) (s_len (ex_storage 2) - 1)" by blast
  then have h'2: "Storage_item h' (ex_storage 2) 0 = Some [2]" unfolding s(3) .
  have hyp2: "archetype_ok ex_heap2 ex_archetype2 \<and> unat (0 :: uintptr) < unat (a_len ex_archetype2)"
    by (intro conjI archetype_ok_ex2 row)
  from T [THEN conjunct2, THEN mp, OF hyp2, THEN conjunct1] obtain g' where
    C: "Remove ex_heap2 ex_archetype2 0 =
          Inr (g', ex_archetype2\<lparr>entities := (entities ex_archetype2)
                    \<lparr>s_len := s_len (entities ex_archetype2) - 1\<rparr>,
                    a_len := a_len ex_archetype2 - 1\<rparr>,
               unat (0 :: uintptr) < unat (a_len ex_archetype2) - 1)"
    and D: "\<forall>i\<in>set (Ids ex_archetype2). \<forall>r. unat r < unat (a_cap ex_archetype2) \<longrightarrow>
            row_bytes g' ex_archetype2 i r =
              row_bytes ex_heap2 ex_archetype2 i
                (if r = 0 then ucast (a_len ex_archetype2 - 1) else r)"
    and E: "unat (0 :: uintptr) < unat (a_len ex_archetype2) - 1 \<longrightarrow>
         Storage_item g' (entities ex_archetype2) (ucast (0 :: uintptr)) =
         Storage_item ex_heap2 (entities ex_archetype2) (s_len (entities ex_archetype2) - 1)"
    by blast
  from C have g'1: "Remove ex_heap2 ex_archetype2 0 = Inr (g', ex_archetype1, True)"
    unfolding a(1) using a(2) by simp
  from D [rule_format, OF a(3,4)] have "row_bytes g' ex_archetype2 1 0 =
      row_bytes ex_heap2 ex_archetype2 1 (ucast (a_len ex_archetype2 - 1))"
    by simp
  then have rb: "row_bytes g' ex_archetype2 1 0 = Some ex_entity2" unfolding a(5) .
  from E a(2) have "Storage_item g' (entities ex_archetype2) (ucast (0 :: uintptr)) =
         Storage_item ex_heap2 (entities ex_archetype2) (s_len (entities ex_archetype2) - 1)"
    by blast
  then have it: "Storage_item g' (entities ex_archetype2) 0 = Some ex_entity2"
    unfolding a(6) by simp
  from ok len row archetype_ok_ex2 h'1 h'2 g'1 rb it show ?thesis by blast
qed

section \<open>Zeroing a row\<close>

lemma store_Cons:
  assumes "store h (Ptr b off) [x] = Some h1" "store h1 (Ptr b (Suc off)) xs = Some h2"
  shows "store h (Ptr b off) (x # xs) = Some h2"
proof -
  from assms(1) have b: "b < length h" "off + 1 \<le> length (h ! b)"
    and h1: "h1 = h[b := take off (h ! b) @ [x] @ drop (off + 1) (h ! b)]"
    by (auto simp: store_def split: if_splits)
  let ?blk = "h ! b"
  let ?blk1 = "take off ?blk @ [x] @ drop (off + 1) ?blk"
  have blk1: "h1 ! b = ?blk1" using b h1 by simp
  have len1: "length ?blk1 = length ?blk" using b by simp
  from assms(2) have in2: "Suc off + length xs \<le> length ?blk"
    and h2: "h2 = h1[b := take (Suc off) ?blk1 @ xs @ drop (Suc off + length xs) ?blk1]"
    using len1 by (auto simp: store_def blk1 split: if_splits)
  have t: "take (Suc off) ?blk1 = take off ?blk @ [x]" using b by simp
  have d: "drop (Suc off + length xs) ?blk1 = drop (Suc off + length xs) ?blk"
    using b by (simp add: add.commute)
  have "h2 = h[b := take off ?blk @ (x # xs) @ drop (off + length (x # xs)) ?blk]"
    unfolding h2 t d h1 by simp
  with b in2 show ?thesis by (simp add: store_def)
qed

lemma Zero_loop_store:
  assumes "b < length h" "off + n \<le> length (h ! b)" "off + n < 2 ^ 64"
  shows "\<exists>h'. Zero_loop h (Ptr b off) n = Inr h' \<and> store h (Ptr b off) (replicate n 0) = Some h'"
  using assms
proof (induction n arbitrary: h off)
  case 0
  then show ?case by (simp add: store_def)
next
  case (Suc n)
  from Suc.prems obtain h1 where h1: "store h (Ptr b off) [0] = Some h1"
    using store_Some [of b h off "[0]"] by auto
  have add: "unsafe_Add (Ptr b off) 1 = Ptr b (Suc off)"
    using Suc.prems(3) by simp
  have "b < length h1" "Suc off + n \<le> length (h1 ! b)" "Suc off + n < 2 ^ 64"
    using Suc.prems store_length [OF h1] store_block_length [OF h1, of b] by simp_all
  from Suc.IH [OF this] obtain h' where
    h': "Zero_loop h1 (Ptr b (Suc off)) n = Inr h'"
      "store h1 (Ptr b (Suc off)) (replicate n 0) = Some h'"
    by blast
  from store_Cons [OF h1 h'(2)] h1 h'(1) add show ?case by simp
qed

text \<open>The loop of \<^verbatim>\<open>ZeroAll\<close> over columns that are in order: in every column that takes
  memory, row \<open>idx\<close> becomes zero; nothing else changes.\<close>

lemma ZeroAll_loop_spec:
  assumes "\<forall>i\<in>set ids. column_ok h a N i"
    and "distinct (map (column_pointer a) (filter (\<lambda>i. itemSize (layouts a ! unat i) \<noteq> 0) ids))"
    and "unat idx < N" "N < 2 ^ 32"
  shows "\<exists>h'. ZeroAll_loop h a idx ids = Inr h' \<and> length h' = length h \<and>
           (\<forall>b. length (h' ! b) = length (h ! b)) \<and>
           (\<forall>b. Ptr b 0 \<notin> column_pointer a ` {i \<in> set ids. itemSize (layouts a ! unat i) \<noteq> 0}
                \<longrightarrow> h' ! b = h ! b) \<and>
           (\<forall>i\<in>set ids. itemSize (layouts a ! unat i) \<noteq> 0 \<longrightarrow>
              row_bytes h' a i idx = Some (replicate (unat (itemSize (layouts a ! unat i))) 0)) \<and>
           (\<forall>i\<in>set ids. \<forall>r. unat r < N \<and> r \<noteq> idx \<longrightarrow>
              row_bytes h' a i r = row_bytes h a i r)"
  using assms(1,2)
proof (induction ids arbitrary: h)
  case Nil
  then show ?case by simp
next
  case (Cons i ids)
  let ?lay = "layouts a ! unat i"
  let ?sz = "unat (itemSize ?lay)"
  let ?nz = "\<lambda>i. itemSize (layouts a ! unat i) \<noteq> 0"
  from Cons.prems(1) have cok: "column_ok h a N i" by simp
  have gs: "getStorage a i = Inr ?lay" by (rule column_ok_getStorage [OF cok])
  from Cons.prems(2) have dist: "distinct (map (column_pointer a) (filter ?nz ids))"
    by (simp split: if_splits)
  show ?case
  proof (cases "itemSize ?lay = 0")
    case True
    then have step: "ZeroAll_loop h a idx (i # ids) = ZeroAll_loop h a idx ids"
      using gs by (simp add: Zero_def)
    from Cons.prems(1) have "\<forall>i\<in>set ids. column_ok h a N i" by simp
    from Cons.IH [OF this dist] obtain h' where
      h': "ZeroAll_loop h a idx ids = Inr h'" "length h' = length h"
      "\<forall>b. length (h' ! b) = length (h ! b)"
      "\<forall>b. Ptr b 0 \<notin> column_pointer a ` {i \<in> set ids. ?nz i} \<longrightarrow> h' ! b = h ! b"
      "\<forall>i\<in>set ids. ?nz i \<longrightarrow>
              row_bytes h' a i idx = Some (replicate (unat (itemSize (layouts a ! unat i))) 0)"
      "\<forall>i\<in>set ids. \<forall>r. unat r < N \<and> r \<noteq> idx \<longrightarrow> row_bytes h' a i r = row_bytes h a i r"
      by blast
    have head: "row_bytes h' a i r = row_bytes h a i r" for r
      using True by (intro row_bytes_heap h'(2,3)) simp
    have frame: "h' ! b = h ! b"
      if "Ptr b 0 \<notin> column_pointer a ` {j \<in> set (i # ids). ?nz j}" for b
      using that h'(4) by auto
    from step h' head frame True show ?thesis by auto
  next
    case False
    note nz = False
    from cok nz obtain b where b: "pointer ?lay = Ptr b 0" "b < length h"
      "length (h ! b) = N * ?sz" and sz: "?sz \<le> MaxInt32"
      by (rule column_okE)
    from assms(3,4) have i32: "unat idx < 2 ^ 32" by simp
    let ?dst = "Ptr b (unat idx * ?sz)"
    have dst: "unsafe_Add (pointer ?lay) (idx * itemSize ?lay) = ?dst"
      using row_addr(1) [OF i32 sz] b(1) by simp
    have inb: "unat idx * ?sz + ?sz \<le> length (h ! b)"
      using row_in_bounds [OF assms(3), of ?sz] b(3) by simp
    have "unat idx * ?sz + ?sz \<le> 2 ^ 32 * MaxInt32"
      using i32 sz row_in_bounds [of "unat idx" "2 ^ 32" ?sz]
      by (metis (no_types, lifting) le_trans mult_le_mono2)
    also have "\<dots> < 2 ^ 64" by (simp add: MaxInt32_def)
    finally have lt64: "unat idx * ?sz + ?sz < 2 ^ 64" .
    from Zero_loop_store [OF b(2) inb lt64] obtain h1 where
      zl: "Zero_loop h ?dst ?sz = Inr h1" and h1: "store h ?dst (replicate ?sz 0) = Some h1"
      by blast
    have step: "ZeroAll_loop h a idx (i # ids) = ZeroAll_loop h1 a idx ids"
      using gs nz zl by (simp add: Zero_def dst)
    note len1 = store_length [OF h1] and blen1 = store_block_length [OF h1]
    from Cons.prems(1) have "\<forall>i\<in>set ids. column_ok h1 a N i"
      using column_ok_store [OF _ h1] by simp
    from Cons.IH [OF this dist] obtain h' where
      h': "ZeroAll_loop h1 a idx ids = Inr h'" "length h' = length h1"
      "\<forall>b. length (h' ! b) = length (h1 ! b)"
      "\<forall>b. Ptr b 0 \<notin> column_pointer a ` {i \<in> set ids. ?nz i} \<longrightarrow> h' ! b = h1 ! b"
      "\<forall>i\<in>set ids. ?nz i \<longrightarrow>
              row_bytes h' a i idx = Some (replicate (unat (itemSize (layouts a ! unat i))) 0)"
      "\<forall>i\<in>set ids. \<forall>r. unat r < N \<and> r \<noteq> idx \<longrightarrow> row_bytes h' a i r = row_bytes h1 a i r"
      by blast
    have inotin: "Ptr b 0 \<notin> column_pointer a ` {i \<in> set ids. ?nz i}"
      using Cons.prems(2) nz b(1) by (auto simp: column_pointer_def)
    with h'(4) have hb: "h' ! b = h1 ! b" by blast
    have same: "row_bytes h' a i r = row_bytes h1 a i r" for r
      using b(1) hb by (intro row_bytes_heap h'(2,3)) simp
    have "row_bytes h1 a i idx = Some (replicate ?sz 0)"
      using load_store_same [OF h1] by (simp add: row_bytes_ok [OF b(1) sz i32])
    then have head0: "row_bytes h' a i idx = Some (replicate ?sz 0)"
      by (simp only: same)
    have head: "row_bytes h' a i r = row_bytes h a i r" if r: "unat r < N" "r \<noteq> idx" for r
    proof -
      from r assms(4) have r32: "unat r < 2 ^ 32" by simp
      from r(2) have "unat r \<noteq> unat idx" by (simp add: word_unat_eq_iff)
      from row_disjoint [OF this, of ?sz] have "row_bytes h1 a i r = row_bytes h a i r"
        using load_store_disj [OF h1, of b "unat r * ?sz" ?sz]
        by (auto simp: row_bytes_ok [OF b(1) sz r32])
      then show ?thesis by (simp only: same)
    qed
    have tail: "row_bytes h' a j r = row_bytes h a j r"
      if j: "j \<in> set ids" and r: "unat r < N" "r \<noteq> idx" for j r
    proof (cases "j = i")
      case True
      with head [OF r] show ?thesis by simp
    next
      case False
      from h'(6) j r have "row_bytes h' a j r = row_bytes h1 a j r" by blast
      also have "\<dots> = row_bytes h a j r"
      proof (rule row_bytes_heap [OF len1], intro allI blen1, intro impI)
        assume jnz: "itemSize (layouts a ! unat j) \<noteq> 0"
        from Cons.prems(1) j have "column_ok h a N j" by simp
        from this jnz obtain bj where bj: "pointer (layouts a ! unat j) = Ptr bj 0"
          by (rule column_okE)
        from Cons.prems(2) nz jnz j have "column_pointer a i \<noteq> column_pointer a j"
          by auto
        with b(1) bj have "bj \<noteq> b" by (simp add: column_pointer_def)
        with store_other_block [OF h1] bj
        show "\<exists>b. pointer (layouts a ! unat j) = Ptr b 0 \<and> h1 ! b = h ! b" by simp
      qed
      finally show ?thesis .
    qed
    have frame: "h' ! b' = h ! b'"
      if "Ptr b' 0 \<notin> column_pointer a ` {j \<in> set (i # ids). ?nz j}" for b'
    proof -
      have "Ptr b 0 \<in> column_pointer a ` {j \<in> set (i # ids). ?nz j}"
        using nz b(1) by (force simp: column_pointer_def)
      with that have "b' \<noteq> b" by auto
      with store_other_block [OF h1] have "h1 ! b' = h ! b'" by simp
      moreover from that h'(4) have "h' ! b' = h1 ! b'" by auto
      ultimately show ?thesis by simp
    qed
    from step h' len1 blen1 head0 head tail frame show ?thesis by auto
  qed
qed

end
